theory Spec2Isabelle
  imports Main "HOL-Library.Word"
begin

unbundle bit_operations_syntax

section \<open>Data types of unecm.c\<close>

type_synonym ecc_uint8 = "8 word"
type_synonym ecc_uint16 = "16 word"
type_synonym ecc_uint32 = "32 word"

text \<open>The file is compiled with \<^verbatim>\<open>_FILE_OFFSET_BITS 64\<close>: \<^verbatim>\<open>off_t\<close> has 64 bits.
  Signed comparisons on it are written with \<^const>\<open>sint\<close>.\<close>

type_synonym off_t = "64 word"

text \<open>The three global lookup tables, each a C array of 256 entries.\<close>

record luts =
  ecc_f_lut :: "ecc_uint8 list"
  ecc_b_lut :: "ecc_uint8 list"
  edc_lut :: "ecc_uint32 list"

section \<open>Table initialisation: \<^verbatim>\<open>eccedc_init\<close>\<close>

text \<open>Static storage is zero-initialised.\<close>

definition luts_zero :: luts where
  "luts_zero = \<lparr>ecc_f_lut = replicate 256 0, ecc_b_lut = replicate 256 0,
                 edc_lut = replicate 256 0\<rparr>"

text \<open>One round of the inner loop \<^verbatim>\<open>edc = (edc >> 1) ^ (edc & 1 ? 0xD8018001 : 0)\<close>.\<close>

definition edc_bit_step :: "ecc_uint32 \<Rightarrow> ecc_uint32" where
  "edc_bit_step edc = drop_bit 1 edc XOR (if edc AND 1 \<noteq> 0 then 0xD8018001 else 0)"

text \<open>The value \<^verbatim>\<open>j = (i << 1) ^ (i & 0x80 ? 0x11D : 0)\<close>, a 32-bit quantity.\<close>

definition ecc_j :: "ecc_uint32 \<Rightarrow> ecc_uint32" where
  "ecc_j i = push_bit 1 i XOR (if i AND 0x80 \<noteq> 0 then 0x11D else 0)"

text \<open>The body of the outer loop for one value of \<^verbatim>\<open>i\<close>. Storing a 32-bit value
  into a byte array truncates it (\<^const>\<open>ucast\<close>).\<close>

definition eccedc_init_body :: "ecc_uint32 \<Rightarrow> luts \<Rightarrow> luts" where
  "eccedc_init_body i T =
     (let j = ecc_j i;
          T1 = T\<lparr>ecc_f_lut := (ecc_f_lut T)[unat i := ucast j]\<rparr>;
          T2 = T1\<lparr>ecc_b_lut := (ecc_b_lut T1)[unat (i XOR j) := ucast i]\<rparr>;
          edc = (edc_bit_step ^^ 8) i
      in T2\<lparr>edc_lut := (edc_lut T2)[unat i := edc]\<rparr>)"

definition eccedc_init :: luts where
  "eccedc_init = fold eccedc_init_body (map of_nat [0..<256]) luts_zero"

section \<open>The checksum: \<^verbatim>\<open>edc_partial_computeblock\<close>, \<^verbatim>\<open>edc_computeblock\<close>\<close>

text \<open>One step \<^verbatim>\<open>edc = (edc >> 8) ^ edc_lut[(edc ^ byte) & 0xFF]\<close>.\<close>

definition edc_byte :: "luts \<Rightarrow> ecc_uint32 \<Rightarrow> ecc_uint8 \<Rightarrow> ecc_uint32" where
  "edc_byte L edc b = drop_bit 8 edc XOR edc_lut L ! unat ((edc XOR ucast b) AND 0xFF)"

text \<open>\<^verbatim>\<open>while(size--) edc = ... (*src++) ...\<close>. The pointer \<^verbatim>\<open>src\<close> is the list of
  bytes from the pointer onwards; \<^verbatim>\<open>*src++\<close> takes its head. The counter is a 16-bit
  integer, as in the source. Reading past the end of the memory behind \<^verbatim>\<open>src\<close> is
  undefined in C; every call of the program passes a size within the 2352-byte sector
  buffer.\<close>

function edc_partial_computeblock ::
  "luts \<Rightarrow> ecc_uint32 \<Rightarrow> ecc_uint8 list \<Rightarrow> ecc_uint16 \<Rightarrow> ecc_uint32" where
  "edc_partial_computeblock L edc src sz =
     (if sz = 0 then edc
      else edc_partial_computeblock L (edc_byte L edc (hd src)) (tl src) (sz - 1))"
  by pat_completeness auto
termination
  by (relation "measure (\<lambda>(L, edc, src, sz). unat sz)") (auto simp: unat_minus_one unat_gt_0)

declare edc_partial_computeblock.simps [simp del]

text \<open>Pointers into the sector buffer are offsets into the list that holds it:
  \<^verbatim>\<open>sector + k\<close> is \<open>drop k sector\<close> for reading and index \<open>k + i\<close> for writing.\<close>

definition edc_computeblock ::
  "luts \<Rightarrow> ecc_uint8 list \<Rightarrow> nat \<Rightarrow> ecc_uint16 \<Rightarrow> nat \<Rightarrow> ecc_uint8 list" where
  "edc_computeblock L sector src sz dest =
     (let edc = edc_partial_computeblock L 0 (drop src sector) sz;
          s0 = sector[dest + 0 := ucast (drop_bit 0 edc AND 0xFF)];
          s1 = s0[dest + 1 := ucast (drop_bit 8 edc AND 0xFF)];
          s2 = s1[dest + 2 := ucast (drop_bit 16 edc AND 0xFF)]
      in s2[dest + 3 := ucast (drop_bit 24 edc AND 0xFF)])"

section \<open>The parity: \<^verbatim>\<open>ecc_computeblock\<close>, \<^verbatim>\<open>ecc_generate\<close>\<close>

text \<open>\<^verbatim>\<open>index += minor_inc; if(index >= size) index -= size;\<close> on 32-bit unsigned
  integers.\<close>

definition ecc_next_index :: "ecc_uint32 \<Rightarrow> ecc_uint32 \<Rightarrow> ecc_uint32 \<Rightarrow> ecc_uint32" where
  "ecc_next_index sz minor_inc index =
     (let index' = index + minor_inc in if sz \<le> index' then index' - sz else index')"

text \<open>The inner loop over \<^verbatim>\<open>minor\<close>; the numeric argument counts the iterations
  still to run, the triple is \<^verbatim>\<open>(index, ecc_a, ecc_b)\<close>.\<close>

fun ecc_minor_loop ::
  "luts \<Rightarrow> ecc_uint8 list \<Rightarrow> nat \<Rightarrow> ecc_uint32 \<Rightarrow> ecc_uint32 \<Rightarrow> nat \<Rightarrow>
   ecc_uint32 \<times> ecc_uint8 \<times> ecc_uint8 \<Rightarrow> ecc_uint32 \<times> ecc_uint8 \<times> ecc_uint8" where
  "ecc_minor_loop L sector src sz minor_inc 0 s = s"
| "ecc_minor_loop L sector src sz minor_inc (Suc n) (index, ecc_a, ecc_b) =
     (let temp = sector ! (src + unat index);
          index' = ecc_next_index sz minor_inc index;
          a1 = ecc_a XOR temp;
          b1 = ecc_b XOR temp;
          a2 = ecc_f_lut L ! unat a1
      in ecc_minor_loop L sector src sz minor_inc n (index', a2, b1))"

text \<open>The start index \<^verbatim>\<open>(major >> 1) * major_mult + (major & 1)\<close>.\<close>

definition ecc_start_index :: "ecc_uint32 \<Rightarrow> ecc_uint32 \<Rightarrow> ecc_uint32" where
  "ecc_start_index major_mult major = drop_bit 1 major * major_mult + (major AND 1)"

text \<open>The body of the outer loop for one value of \<^verbatim>\<open>major\<close>. Source and
  destination both point into the sector buffer, so reads see earlier writes.\<close>

definition ecc_major_body ::
  "luts \<Rightarrow> nat \<Rightarrow> ecc_uint32 \<Rightarrow> ecc_uint32 \<Rightarrow> ecc_uint32 \<Rightarrow> ecc_uint32 \<Rightarrow> nat \<Rightarrow>
   ecc_uint32 \<Rightarrow> ecc_uint8 list \<Rightarrow> ecc_uint8 list" where
  "ecc_major_body L src major_count minor_count major_mult minor_inc dest major sector =
     (let sz = major_count * minor_count;
          index = ecc_start_index major_mult major;
          (index', ecc_a, ecc_b) =
             ecc_minor_loop L sector src sz minor_inc (unat minor_count) (index, 0, 0);
          a = ecc_b_lut L ! unat (ecc_f_lut L ! unat ecc_a XOR ecc_b);
          s1 = sector[dest + unat major := a]
      in s1[dest + unat (major + major_count) := a XOR ecc_b])"

definition ecc_computeblock ::
  "luts \<Rightarrow> ecc_uint8 list \<Rightarrow> nat \<Rightarrow> ecc_uint32 \<Rightarrow> ecc_uint32 \<Rightarrow> ecc_uint32 \<Rightarrow> ecc_uint32 \<Rightarrow>
   nat \<Rightarrow> ecc_uint8 list" where
  "ecc_computeblock L sector src major_count minor_count major_mult minor_inc dest =
     fold (ecc_major_body L src major_count minor_count major_mult minor_inc dest)
       (map of_nat [0..<unat major_count]) sector"

text \<open>The save-and-zero loop and the restore loop of \<^verbatim>\<open>ecc_generate\<close>. The local
  array \<^verbatim>\<open>address\<close> is uninitialised in C; it is read only after it was written.\<close>

definition address_save_zero :: "ecc_uint8 list \<Rightarrow> ecc_uint8 list \<times> ecc_uint8 list" where
  "address_save_zero sector =
     fold (\<lambda>i (address, s). (address[i := s ! (12 + i)], s[12 + i := 0])) [0..<4]
       (replicate 4 0, sector)"

definition address_restore :: "ecc_uint8 list \<Rightarrow> ecc_uint8 list \<Rightarrow> ecc_uint8 list" where
  "address_restore address sector = fold (\<lambda>i s. s[12 + i := address ! i]) [0..<4] sector"

definition ecc_generate :: "luts \<Rightarrow> ecc_uint8 list \<Rightarrow> bool \<Rightarrow> ecc_uint8 list" where
  "ecc_generate L sector zeroaddress =
     (let (address, s0) = (if zeroaddress then address_save_zero sector
                           else (replicate 4 0, sector));
          s1 = ecc_computeblock L s0 0xC 86 24 2 86 0x81C;
          s2 = ecc_computeblock L s1 0xC 52 43 86 88 0x8C8
      in if zeroaddress then address_restore address s2 else s2)"

section \<open>Sector generation: \<^verbatim>\<open>eccedc_generate\<close>\<close>

definition eccedc_generate :: "luts \<Rightarrow> ecc_uint8 list \<Rightarrow> int \<Rightarrow> ecc_uint8 list" where
  "eccedc_generate L sector type =
     (if type = 1 then
        (let s0 = edc_computeblock L sector 0x00 0x810 0x810;
             s1 = fold (\<lambda>i s. s[0x814 + i := 0]) [0..<8] s0
         in ecc_generate L s1 False)
      else if type = 2 then
        (let s0 = edc_computeblock L sector 0x10 0x808 0x818
         in ecc_generate L s0 True)
      else if type = 3 then edc_computeblock L sector 0x10 0x91C 0x92C
      else sector)"

section \<open>The decoder: \<^verbatim>\<open>unecmify\<close>\<close>

text \<open>The four ways in which \<^verbatim>\<open>unecmify\<close> returns 1, told apart by what it prints:
  "Header not found!", "Unexpected EOF!" (label \<^verbatim>\<open>uneof\<close>), the jump to \<^verbatim>\<open>corrupt\<close>
  after the count check, and "EDC error". The fifth value, \<open>UndefinedShift\<close>, is no return
  of the program: it marks an input on which the program shifts a 64-bit value by 64 or
  more, where C defines no behaviour, so that the model says nothing about what happens
  there.\<close>

datatype error =
  HeaderMissing | UnexpectedEndOfStream | InvalidChunkLength | ChecksumMismatch | UndefinedShift

text \<open>The state of a decode: the unread rest of the input file, the bytes written to the
  output file, the running checksum and the 2352-byte sector buffer. The progress counter
  only feeds the display and is left out.\<close>

record dec_state =
  inp :: "ecc_uint8 list"
  out :: "ecc_uint8 list"
  checkedc :: ecc_uint32
  sector :: "ecc_uint8 list"

definition memset :: "ecc_uint8 list \<Rightarrow> nat \<Rightarrow> ecc_uint8 \<Rightarrow> nat \<Rightarrow> ecc_uint8 list" where
  "memset buf off v n = take off buf @ replicate n v @ drop (off + n) buf"

text \<open>\<^verbatim>\<open>if(fread(sector + off, 1, n, in) != n) goto uneof;\<close>\<close>

definition fread :: "dec_state \<Rightarrow> nat \<Rightarrow> nat \<Rightarrow> error + dec_state" where
  "fread st off n =
     (if length (inp st) < n then Inl UnexpectedEndOfStream
      else Inr (st\<lparr>sector := take off (sector st) @ take n (inp st) @ drop (off + n) (sector st),
                   inp := drop n (inp st)\<rparr>))"

definition fwrite :: "dec_state \<Rightarrow> ecc_uint8 list \<Rightarrow> dec_state" where
  "fwrite st bytes = st\<lparr>out := out st @ bytes\<rparr>"

text \<open>The magic "ECM\0"; on success the rest of the input.\<close>

definition magic_ok :: "ecc_uint8 list \<Rightarrow> ecc_uint8 list option" where
  "magic_ok input =
     (case input of
        c0 # c1 # c2 # c3 # rest \<Rightarrow>
          if c0 = 0x45 \<and> c1 = 0x43 \<and> c2 = 0x4D \<and> c3 = 0x00 then Some rest else None
      | _ \<Rightarrow> None)"

text \<open>The loop \<^verbatim>\<open>while(c & 0x80)\<close> of the chunk header. \<^verbatim>\<open>num\<close> is a 64-bit
  \<^verbatim>\<open>off_t\<close> and \<^verbatim>\<open>bits\<close> an \<^verbatim>\<open>unsigned int\<close>. The statement
  \<^verbatim>\<open>num |= ((off_t)(c & 0x7F)) << bits\<close> runs after the end-of-file test. For
  \<^verbatim>\<open>bits\<close> below 64 the shift is \<^const>\<open>push_bit\<close> on 64-bit words, as the compiled
  program computes it: bits shifted beyond bit 63 are lost. For \<^verbatim>\<open>bits\<close> of 64 or more
  (from the tenth continuation byte on) C defines no result, and the model stops with
  \<open>UndefinedShift\<close>.\<close>

function read_count ::
  "ecc_uint8 list \<Rightarrow> ecc_uint8 \<Rightarrow> off_t \<Rightarrow> ecc_uint32 \<Rightarrow> error + (off_t \<times> ecc_uint8 list)" where
  "read_count input c num bits =
     (if c AND 0x80 \<noteq> 0 then
        (case input of
           [] \<Rightarrow> Inl UnexpectedEndOfStream
         | c' # rest \<Rightarrow>
             if 64 \<le> unat bits then Inl UndefinedShift
             else read_count rest c' (num OR push_bit (unat bits) (ucast (c' AND 0x7F)))
                    (bits + 7))
      else Inr (num, input))"
  by pat_completeness auto
termination
  by (relation "measure (\<lambda>(input, c, num, bits). length input)") auto

declare read_count.simps [simp del]

text \<open>Lines 253 to 263: the first byte gives \<^verbatim>\<open>type = c & 3\<close> and
  \<^verbatim>\<open>num = (c >> 2) & 0x1F\<close>, then the continuation loop runs with \<^verbatim>\<open>bits = 5\<close>.\<close>

definition chunk_header ::
  "ecc_uint8 list \<Rightarrow> error + (ecc_uint32 \<times> off_t \<times> ecc_uint8 list)" where
  "chunk_header input =
     (case input of
        [] \<Rightarrow> Inl UnexpectedEndOfStream
      | c # rest \<Rightarrow>
          (case read_count rest c (ucast (drop_bit 2 c AND 0x1F)) 5 of
             Inl e \<Rightarrow> Inl e
           | Inr (num, rest') \<Rightarrow> Inr (ucast (c AND 3), num, rest')))"

text \<open>The four assignments \<^verbatim>\<open>sector[0x10] = sector[0x14]\<close> to
  \<^verbatim>\<open>sector[0x13] = sector[0x17]\<close>, which cases 2 and 3 of the \<^verbatim>\<open>switch\<close> both make.\<close>

definition mirror_subheader :: "ecc_uint8 list \<Rightarrow> ecc_uint8 list" where
  "mirror_subheader s0 =
     (let s1 = s0[0x10 := s0 ! 0x14];
          s2 = s1[0x11 := s1 ! 0x15];
          s3 = s2[0x12 := s2 ! 0x16]
      in s3[0x13 := s3 ! 0x17])"

text \<open>One run of the body of \<^verbatim>\<open>while(num--)\<close>: the two \<^verbatim>\<open>memset\<close> calls and the
  \<^verbatim>\<open>switch(type)\<close>.\<close>

definition sector_step :: "luts \<Rightarrow> ecc_uint32 \<Rightarrow> dec_state \<Rightarrow> error + dec_state" where
  "sector_step L type st0 =
     (let st = st0\<lparr>sector := memset (memset (sector st0) 0 0 2352) 1 0xFF 10\<rparr> in
      if type = 1 then
        (let st1 = st\<lparr>sector := (sector st)[0x0F := 0x01]\<rparr> in
         case fread st1 0x00C 0x003 of Inl e \<Rightarrow> Inl e | Inr st2 \<Rightarrow>
         case fread st2 0x010 0x800 of Inl e \<Rightarrow> Inl e | Inr st3 \<Rightarrow>
           (let st4 = st3\<lparr>sector := eccedc_generate L (sector st3) 1\<rparr>;
                st5 = st4\<lparr>checkedc := edc_partial_computeblock L (checkedc st4) (sector st4) 2352\<rparr>
            in Inr (fwrite st5 (take 2352 (sector st5)))))
      else if type = 2 then
        (let st1 = st\<lparr>sector := (sector st)[0x0F := 0x02]\<rparr> in
         case fread st1 0x014 0x804 of Inl e \<Rightarrow> Inl e | Inr st2 \<Rightarrow>
           (let s4 = mirror_subheader (sector st2);
                st3 = st2\<lparr>sector := eccedc_generate L s4 2\<rparr>;
                st4 = st3\<lparr>checkedc :=
                        edc_partial_computeblock L (checkedc st3) (drop 0x10 (sector st3)) 2336\<rparr>
            in Inr (fwrite st4 (take 2336 (drop 0x10 (sector st4))))))
      else if type = 3 then
        (let st1 = st\<lparr>sector := (sector st)[0x0F := 0x02]\<rparr> in
         case fread st1 0x014 0x918 of Inl e \<Rightarrow> Inl e | Inr st2 \<Rightarrow>
           (let s4 = mirror_subheader (sector st2);
                st3 = st2\<lparr>sector := eccedc_generate L s4 3\<rparr>;
                st4 = st3\<lparr>checkedc :=
                        edc_partial_computeblock L (checkedc st3) (drop 0x10 (sector st3)) 2336\<rparr>
            in Inr (fwrite st4 (take 2336 (drop 0x10 (sector st4))))))
      else Inr st)"

text \<open>\<^verbatim>\<open>while(num--) { ... }\<close>\<close>

function sector_loop :: "luts \<Rightarrow> ecc_uint32 \<Rightarrow> dec_state \<Rightarrow> off_t \<Rightarrow> error + dec_state" where
  "sector_loop L type st num =
     (if num = 0 then Inr st
      else (case sector_step L type st of
              Inl e \<Rightarrow> Inl e
            | Inr st' \<Rightarrow> sector_loop L type st' (num - 1)))"
  by pat_completeness auto
termination
  by (relation "measure (\<lambda>(L, type, st, num). unat num)") (auto simp: unat_minus_one unat_gt_0)

declare sector_loop.simps [simp del]

text \<open>\<^verbatim>\<open>while(num) { ... }\<close> of a literal chunk. \<^verbatim>\<open>num > 2352\<close> compares signed 64-bit
  values; the piece length \<^verbatim>\<open>b\<close> is a 16-bit integer. The caller enters the loop with
  \<open>0 \<le> num < 2^63\<close>; for other values the C loop can spin without reading, so the result is
  an option and \<open>None\<close> stands for a loop that does not return.\<close>

partial_function (option) literal_loop ::
  "luts \<Rightarrow> dec_state \<Rightarrow> off_t \<Rightarrow> (error + dec_state) option" where
  "literal_loop L st num =
     (if num = 0 then Some (Inr st)
      else (let b = (if 2352 < sint num then 2352 else ucast num) :: ecc_uint16 in
            case fread st 0 (unat b) of
              Inl e \<Rightarrow> Some (Inl e)
            | Inr st1 \<Rightarrow>
                literal_loop L
                  (fwrite (st1\<lparr>checkedc := edc_partial_computeblock L (checkedc st1) (sector st1) b\<rparr>)
                     (take (unat b) (sector st1)))
                  (num - ucast b)))"

text \<open>The statement \<^verbatim>\<open>if(!type) { ... } else { ... }\<close>.\<close>

definition chunk_body ::
  "luts \<Rightarrow> ecc_uint32 \<Rightarrow> dec_state \<Rightarrow> off_t \<Rightarrow> (error + dec_state) option" where
  "chunk_body L type st num =
     (if type = 0 then literal_loop L st num else Some (sector_loop L type st num))"

text \<open>The loop \<^verbatim>\<open>for(;;)\<close> over the chunks. It ends with \<open>Inr\<close> at the \<^verbatim>\<open>break\<close>.
  \<^verbatim>\<open>num++\<close> is the increment of the 64-bit two's complement value, as the compiled
  program computes it: \<open>2^63 - 1\<close> goes to \<open>2^63\<close> and \<open>2^64 - 1\<close> to 0.
  \<^verbatim>\<open>num >= 0x8000000000000000\<close> compares unsigned, as the constant is unsigned.\<close>

partial_function (option) unecmify_loop ::
  "luts \<Rightarrow> dec_state \<Rightarrow> (error + dec_state) option" where
  "unecmify_loop L st =
     (case chunk_header (inp st) of
        Inl e \<Rightarrow> Some (Inl e)
      | Inr (type, num, rest) \<Rightarrow>
          if num = 0xFFFFFFFF then Some (Inr (st\<lparr>inp := rest\<rparr>))
          else if 0x8000000000000000 \<le> num + 1 then Some (Inl InvalidChunkLength)
          else (case chunk_body L type (st\<lparr>inp := rest\<rparr>) (num + 1) of
                  None \<Rightarrow> None
                | Some (Inl e) \<Rightarrow> Some (Inl e)
                | Some (Inr st') \<Rightarrow> unecmify_loop L st'))"

text \<open>Lines 318 to 337: the four trailer bytes are read into the sector buffer and
  compared with the bytes of the running checksum.\<close>

definition unecmify_trailer :: "dec_state \<Rightarrow> error + dec_state" where
  "unecmify_trailer st =
     (case fread st 0 4 of
        Inl e \<Rightarrow> Inl e
      | Inr st1 \<Rightarrow>
          if ucast (sector st1 ! 0) \<noteq> drop_bit 0 (checkedc st1) AND 0xFF \<or>
             ucast (sector st1 ! 1) \<noteq> drop_bit 8 (checkedc st1) AND 0xFF \<or>
             ucast (sector st1 ! 2) \<noteq> drop_bit 16 (checkedc st1) AND 0xFF \<or>
             ucast (sector st1 ! 3) \<noteq> drop_bit 24 (checkedc st1) AND 0xFF
          then Inl ChecksumMismatch
          else Inr st1)"

text \<open>The whole of \<^verbatim>\<open>unecmify\<close>. The sector buffer is an uninitialised local array; no
  byte of it is read before it is written, and it starts here as zeros.\<close>

definition unecmify :: "luts \<Rightarrow> ecc_uint8 list \<Rightarrow> (error + dec_state) option" where
  "unecmify L input =
     (case magic_ok input of
        None \<Rightarrow> Some (Inl HeaderMissing)
      | Some rest \<Rightarrow>
          (case unecmify_loop L \<lparr>inp = rest, out = [], checkedc = 0, sector = replicate 2352 0\<rparr> of
             None \<Rightarrow> None
           | Some (Inl e) \<Rightarrow> Some (Inl e)
           | Some (Inr st) \<Rightarrow> Some (unecmify_trailer st)))"

section \<open>Reference functions for the tables\<close>

text \<open>The forward table as the design document words it: entry \<open>i\<close> is
  \<open>(i << 1) xor (0x11D if bit7(i) else 0)\<close>, truncated to 8 bits.\<close>

definition forward_byte :: "ecc_uint8 \<Rightarrow> ecc_uint8" where
  "forward_byte i =
     ucast (push_bit 1 (ucast i :: ecc_uint32) XOR (if bit i 7 then 0x11D else 0))"

text \<open>The tables after the first \<open>n\<close> rounds of the loop of \<^verbatim>\<open>eccedc_init\<close>.\<close>

definition init_upto :: "nat \<Rightarrow> luts" where
  "init_upto n = fold eccedc_init_body (map of_nat [0..<n]) luts_zero"

section \<open>Reference function for the checksum\<close>

text \<open>The checksum engine as the design document words it, over a checksum table \<open>T\<close>
  and a byte sequence: each byte updates the accumulator as
  \<open>acc = (acc >> 8) xor T[(acc xor byte) & 0xFF]\<close>.\<close>

fun accumulate :: "ecc_uint32 list \<Rightarrow> ecc_uint32 \<Rightarrow> ecc_uint8 list \<Rightarrow> ecc_uint32" where
  "accumulate T acc [] = acc"
| "accumulate T acc (byte # bytes) =
     accumulate T (drop_bit 8 acc XOR T ! unat ((acc XOR ucast byte) AND 0xFF)) bytes"

section \<open>Reference functions for the parity\<close>

text \<open>The parity engine as the design document words it, on natural numbers: the walk of
  \<open>minorCount\<close> steps that reads \<open>buffer[index]\<close>, advances the index by the increment
  modulo the region size, folds the byte into \<open>a\<close> (then through the forward table) and
  into \<open>b\<close>.\<close>

fun parity_walk ::
  "luts \<Rightarrow> ecc_uint8 list \<Rightarrow> nat \<Rightarrow> nat \<Rightarrow> nat \<Rightarrow> nat \<Rightarrow> ecc_uint8 \<times> ecc_uint8 \<Rightarrow>
   ecc_uint8 \<times> ecc_uint8" where
  "parity_walk L buffer sz inc 0 index (a, b) = (a, b)"
| "parity_walk L buffer sz inc (Suc n) index (a, b) =
     parity_walk L buffer sz inc n ((index + inc) mod sz)
       (ecc_f_lut L ! unat (a XOR buffer ! index), b XOR buffer ! index)"

text \<open>The start index \<open>(major >> 1) * majorStride + (major & 1)\<close>, the walk, and the two
  output bytes of one \<open>major\<close>: the final byte \<open>backwardTable[forwardTable[a] xor b]\<close> and
  the final byte xor \<open>b\<close>.\<close>

definition parity_pair ::
  "luts \<Rightarrow> ecc_uint8 list \<Rightarrow> nat \<Rightarrow> nat \<Rightarrow> nat \<Rightarrow> nat \<Rightarrow> nat \<Rightarrow> ecc_uint8 \<times> ecc_uint8" where
  "parity_pair L buffer majorCount minorCount majorStride minorIncrement major =
     (let (a, b) = parity_walk L buffer (majorCount * minorCount) minorIncrement minorCount
                     (drop_bit 1 major * majorStride + (major AND 1)) (0, 0);
          final = ecc_b_lut L ! unat (ecc_f_lut L ! unat a XOR b)
      in (final, final XOR b))"

text \<open>The two output arrays: positions \<open>major\<close> and positions \<open>major + majorCount\<close>.\<close>

definition computeParity ::
  "luts \<Rightarrow> ecc_uint8 list \<Rightarrow> nat \<Rightarrow> nat \<Rightarrow> nat \<Rightarrow> nat \<Rightarrow> ecc_uint8 list \<times> ecc_uint8 list" where
  "computeParity L buffer majorCount minorCount majorStride minorIncrement =
     (map (\<lambda>major. fst (parity_pair L buffer majorCount minorCount majorStride minorIncrement major))
        [0..<majorCount],
      map (\<lambda>major. snd (parity_pair L buffer majorCount minorCount majorStride minorIncrement major))
        [0..<majorCount])"

text \<open>The value of \<^verbatim>\<open>index\<close> in \<^verbatim>\<open>ecc_computeblock\<close> when the inner loop for
  \<^verbatim>\<open>major\<close> has run \<open>minor\<close> times, that is the index of its next read
  \<^verbatim>\<open>src[index]\<close>.\<close>

definition ecc_read_index ::
  "luts \<Rightarrow> ecc_uint8 list \<Rightarrow> nat \<Rightarrow> ecc_uint32 \<Rightarrow> ecc_uint32 \<Rightarrow> ecc_uint32 \<Rightarrow> ecc_uint32 \<Rightarrow>
   ecc_uint32 \<Rightarrow> nat \<Rightarrow> ecc_uint32" where
  "ecc_read_index L s src major_count minor_count major_mult minor_inc major minor =
     fst (ecc_minor_loop L s src (major_count * minor_count) minor_inc minor
            (ecc_start_index major_mult major, 0, 0))"

text \<open>The sector after the outer loop of \<^verbatim>\<open>ecc_computeblock\<close> has run for the first
  \<open>m\<close> values of \<^verbatim>\<open>major\<close>, byte by byte: the two output bytes of each of them, and
  the bytes of the sector \<open>s\<close> it started from everywhere else.\<close>

definition parity_image ::
  "luts \<Rightarrow> ecc_uint8 list \<Rightarrow> ecc_uint8 list \<Rightarrow> nat \<Rightarrow> nat \<Rightarrow> nat \<Rightarrow> nat \<Rightarrow> nat \<Rightarrow> nat \<Rightarrow>
   nat \<Rightarrow> ecc_uint8" where
  "parity_image L s buffer mc nc stride inc dest m k =
     (if dest \<le> k \<and> k < dest + m then fst (parity_pair L buffer mc nc stride inc (k - dest))
      else if dest + mc \<le> k \<and> k < dest + mc + m
           then snd (parity_pair L buffer mc nc stride inc (k - dest - mc))
      else s ! k)"

section \<open>Reference functions for the sector layout\<close>

text \<open>The little-endian serialisation of a checksum, and the 12-byte sync pattern.\<close>

definition finalize :: "ecc_uint32 \<Rightarrow> ecc_uint8 list" where
  "finalize acc = [ucast acc, ucast (drop_bit 8 acc), ucast (drop_bit 16 acc), ucast (drop_bit 24 acc)]"

definition sync_pattern :: "ecc_uint8 list" where
  "sync_pattern = [0x00, 0xFF, 0xFF, 0xFF, 0xFF, 0xFF, 0xFF, 0xFF, 0xFF, 0xFF, 0xFF, 0x00]"

text \<open>The sector that one Mode 1 repetition builds from the input \<open>i\<close>: the filled buffer
  passed through \<^verbatim>\<open>eccedc_generate\<close>.\<close>

definition mode1_sector :: "luts \<Rightarrow> ecc_uint8 list \<Rightarrow> ecc_uint8 list" where
  "mode1_sector L i =
     eccedc_generate L
       (sync_pattern @ take 3 i @ [1] @ take 2048 (drop 3 i) @ replicate 288 0) 1"

text \<open>The sector buffer of a Mode 2 repetition that has read \<open>n\<close> bytes of the input
  \<open>i\<close> to offset 0x14 and mirrored the subheader, before \<^verbatim>\<open>eccedc_generate\<close>.\<close>

definition mode2_fill :: "ecc_uint8 list \<Rightarrow> nat \<Rightarrow> ecc_uint8 list" where
  "mode2_fill i n =
     sync_pattern @ [0, 0, 0, 2] @ take 4 i @ take n i @ replicate (2332 - n) 0"

section \<open>Reference functions for the chunk header\<close>

text \<open>The raw count as the design document words it, as a natural number: the low 7 bits
  of each continuation byte placed at bit offset \<open>off\<close>, \<open>off + 7\<close>, ..., and the 5 bits
  2 to 6 of the first byte below them.\<close>

fun spec_count_bits :: "nat \<Rightarrow> ecc_uint8 list \<Rightarrow> nat" where
  "spec_count_bits off [] = 0"
| "spec_count_bits off (c # cs) =
     push_bit off (take_bit 7 (unat c)) OR spec_count_bits (off + 7) cs"

definition spec_raw_count :: "ecc_uint8 \<Rightarrow> ecc_uint8 list \<Rightarrow> nat" where
  "spec_raw_count c0 cs = take_bit 5 (drop_bit 2 (unat c0)) OR spec_count_bits 5 cs"

text \<open>\<open>cont_chain c cs\<close>: after the byte \<open>c\<close>, the bytes \<open>cs\<close> are the continuation bytes:
  the top bit is set in \<open>c\<close> and in every byte of \<open>cs\<close> but the last, and clear in the last
  (in \<open>c\<close> itself when \<open>cs\<close> is empty).\<close>

fun cont_chain :: "ecc_uint8 \<Rightarrow> ecc_uint8 list \<Rightarrow> bool" where
  "cont_chain c [] = (\<not> bit c 7)"
| "cont_chain c (d # ds) = (bit c 7 \<and> cont_chain d ds)"

text \<open>The raw count as the 64-bit \<^verbatim>\<open>off_t\<close> holds it: bits placed beyond bit 63 are
  lost.\<close>

definition spec_raw_count64 :: "ecc_uint8 \<Rightarrow> ecc_uint8 list \<Rightarrow> nat" where
  "spec_raw_count64 c0 cs = spec_raw_count c0 cs mod 2 ^ 64"

text \<open>\<open>chunk_header_bytes input c0 cs rest\<close>: the input starts with a chunk header made of
  the first byte \<open>c0\<close> and the continuation bytes \<open>cs\<close>, and goes on with \<open>rest\<close>. There
  are at most nine continuation bytes, at bit offsets 5 to 61: a tenth would be shifted by
  68, which C does not define on a 64-bit value.\<close>

definition chunk_header_bytes ::
  "ecc_uint8 list \<Rightarrow> ecc_uint8 \<Rightarrow> ecc_uint8 list \<Rightarrow> ecc_uint8 list \<Rightarrow> bool" where
  "chunk_header_bytes input c0 cs rest \<longleftrightarrow>
     input = c0 # cs @ rest \<and> cont_chain c0 cs \<and> length cs \<le> 9"

text \<open>The chunk type as the design document words it: the low 2 bits of the first
  byte.\<close>

definition spec_type :: "ecc_uint8 \<Rightarrow> nat" where
  "spec_type c0 = unat c0 mod 4"

section \<open>Reference predicate for the running checksum\<close>

text \<open>The running checksum as the design document words it, the checksum of every byte
  written to the output so far, accumulated from 0; together with the size of the sector
  buffer, which the reads of the decoder rely on.\<close>

definition decode_inv :: "luts \<Rightarrow> dec_state \<Rightarrow> bool" where
  "decode_inv L st \<longleftrightarrow>
     length (sector st) = 2352 \<and> checkedc st = accumulate (edc_lut L) 0 (out st)"

section \<open>Properties of the tables\<close>

lemma u8_all:
  assumes "\<forall>n\<in>{0..<256::nat}. P (of_nat n :: ecc_uint8)"
  shows "P i"
proof -
  have "unat i < 256" using unsigned_less [of i] by simp
  then have "unat i \<in> {0..<256}" by simp
  then have "P (of_nat (unat i))" using assms by blast
  then show ?thesis by simp
qed

lemma ecc_j_forward: "ucast (ecc_j (ucast i)) = forward_byte i"
  by (rule u8_all [where P = "\<lambda>i. ucast (ecc_j (ucast i)) = forward_byte i"])
     (simp add: ecc_j_def forward_byte_def atLeastLessThan_nat_numeral)

lemma ecc_j_index: "unat (ucast i XOR ecc_j (ucast i)) = unat (i XOR forward_byte i)"
  by (rule u8_all [where P = "\<lambda>i. unat (ucast i XOR ecc_j (ucast i)) = unat (i XOR forward_byte i)"])
     (simp add: ecc_j_def forward_byte_def atLeastLessThan_nat_numeral)

lemma forward_byte_alt: "forward_byte i = push_bit 1 i XOR (if bit i 7 then 0x1D else 0)"
  by (rule u8_all [where P = "\<lambda>i. forward_byte i = push_bit 1 i XOR (if bit i 7 then 0x1D else 0)"])
     (simp add: forward_byte_def atLeastLessThan_nat_numeral)

lemma forward_byte_xor: "forward_byte (a XOR b) = forward_byte a XOR forward_byte b"
  by (simp add: forward_byte_alt bit_xor_iff xor.assoc xor.left_commute)

lemma xor_zero_eq: "a XOR b = 0 \<Longrightarrow> a = b" for a b :: "'a::len word"
proof -
  assume h: "a XOR b = 0"
  have "b = a XOR (a XOR b)" by (simp add: xor.assoc [symmetric])
  with h show "a = b" by simp
qed

lemma forward_kernel: "forward_byte i = 0 \<longrightarrow> i = 0"
  by (rule u8_all [where P = "\<lambda>i. forward_byte i = 0 \<longrightarrow> i = 0"])
     (simp add: forward_byte_def atLeastLessThan_nat_numeral)

lemma fb_kernel: "i XOR forward_byte i = 0 \<longrightarrow> i = 0"
  by (rule u8_all [where P = "\<lambda>i. i XOR forward_byte i = 0 \<longrightarrow> i = 0"])
     (simp add: forward_byte_def atLeastLessThan_nat_numeral)

lemma forward_byte_inj: "forward_byte a = forward_byte b \<Longrightarrow> a = b"
proof -
  assume "forward_byte a = forward_byte b"
  then have "forward_byte (a XOR b) = 0" by (simp add: forward_byte_xor)
  then have "a XOR b = 0" using forward_kernel by blast
  then show "a = b" by (rule xor_zero_eq)
qed

lemma fb_inj: "a XOR forward_byte a = b XOR forward_byte b \<Longrightarrow> a = b"
proof -
  assume h: "a XOR forward_byte a = b XOR forward_byte b"
  have "(a XOR b) XOR forward_byte (a XOR b) = (a XOR forward_byte a) XOR (b XOR forward_byte b)"
    by (simp add: forward_byte_xor xor.assoc xor.left_commute)
  then have "(a XOR b) XOR forward_byte (a XOR b) = 0" using h by simp
  then have "a XOR b = 0" using fb_kernel by blast
  then show "a = b" by (rule xor_zero_eq)
qed

lemma unat_ucast_8_32: "unat (ucast (i::ecc_uint8) :: ecc_uint32) = unat i"
  using unsigned_less [of i, where 'a = nat]
  by (simp add: unsigned_ucast_eq take_bit_nat_eq_self)

lemma ucast_8_32_8: "ucast (ucast (i::ecc_uint8) :: ecc_uint32) = i"
  by (simp add: ucast_up_ucast_id is_up)

lemma init_body_u8:
  "eccedc_init_body (ucast (i::ecc_uint8)) T =
     T\<lparr>ecc_f_lut := (ecc_f_lut T)[unat i := forward_byte i],
       ecc_b_lut := (ecc_b_lut T)[unat (i XOR forward_byte i) := i],
       edc_lut := (edc_lut T)[unat i := (edc_bit_step ^^ 8) (ucast i)]\<rparr>"
  by (simp add: eccedc_init_body_def Let_def ecc_j_forward ecc_j_index unat_ucast_8_32 ucast_8_32_8)

lemma init_upto_Suc:
  "n < 256 \<Longrightarrow> init_upto (Suc n) = eccedc_init_body (ucast (of_nat n :: ecc_uint8)) (init_upto n)"
proof -
  assume "n < 256"
  then have "(of_nat n :: ecc_uint32) = ucast (of_nat n :: ecc_uint8)"
    by (simp add: unsigned_of_nat take_bit_nat_eq_self)
  then show ?thesis by (simp add: init_upto_def)
qed

lemma init_upto_inv:
  "n \<le> 256 \<Longrightarrow>
     length (ecc_f_lut (init_upto n)) = 256 \<and> length (ecc_b_lut (init_upto n)) = 256 \<and>
     (\<forall>i::ecc_uint8. unat i < n \<longrightarrow> ecc_f_lut (init_upto n) ! unat i = forward_byte i) \<and>
     (\<forall>i::ecc_uint8. unat i < n \<longrightarrow>
        ecc_b_lut (init_upto n) ! unat (i XOR forward_byte i) = i)"
proof (induction n)
  case 0
  then show ?case by (simp add: init_upto_def luts_zero_def)
next
  case (Suc n)
  then have n: "n < 256" and IH:
    "length (ecc_f_lut (init_upto n)) = 256" "length (ecc_b_lut (init_upto n)) = 256"
    "\<And>i::ecc_uint8. unat i < n \<Longrightarrow> ecc_f_lut (init_upto n) ! unat i = forward_byte i"
    "\<And>i::ecc_uint8. unat i < n \<Longrightarrow> ecc_b_lut (init_upto n) ! unat (i XOR forward_byte i) = i"
    by simp_all
  define i0 :: ecc_uint8 where "i0 = of_nat n"
  have u0: "unat i0 = n" using n by (simp add: i0_def unat_of_nat)
  have step: "init_upto (Suc n) = eccedc_init_body (ucast i0) (init_upto n)"
    using n by (simp add: init_upto_Suc i0_def)
  have lt: "unat (w::ecc_uint8) < 256" for w using unsigned_less [of w, where 'a = nat] by simp
  have f: "ecc_f_lut (init_upto (Suc n)) ! unat i = forward_byte i" if "unat i < Suc n" for i :: ecc_uint8
  proof (cases "unat i = n")
    case True
    then have "i = i0" using u0 by (simp add: word_unat_eq_iff)
    then show ?thesis using n IH(1) u0 by (simp add: step init_body_u8)
  next
    case False
    then show ?thesis using that IH(3) [of i] u0 by (simp add: step init_body_u8)
  qed
  have b: "ecc_b_lut (init_upto (Suc n)) ! unat (i XOR forward_byte i) = i" if "unat i < Suc n" for i :: ecc_uint8
  proof (cases "i = i0")
    case True
    then show ?thesis using IH(2) lt [of "i0 XOR forward_byte i0"] by (simp add: step init_body_u8)
  next
    case False
    then have "i XOR forward_byte i \<noteq> i0 XOR forward_byte i0" using fb_inj by blast
    then have ne: "unat (i XOR forward_byte i) \<noteq> unat (i0 XOR forward_byte i0)"
      by (simp add: word_unat_eq_iff)
    from False have "unat i \<noteq> n" using u0 by (auto simp: word_unat_eq_iff)
    with that have "unat i < n" by simp
    then show ?thesis using IH(4) [of i] ne by (simp add: step init_body_u8)
  qed
  show ?case using f b IH(1,2) by (simp add: step init_body_u8)
qed

lemma init_tables:
  "ecc_f_lut eccedc_init ! unat (i::ecc_uint8) = forward_byte i"
  "ecc_b_lut eccedc_init ! unat (i XOR forward_byte i) = i"
  "length (ecc_f_lut eccedc_init) = 256" "length (ecc_b_lut eccedc_init) = 256"
proof -
  have e: "eccedc_init = init_upto 256" by (simp add: eccedc_init_def init_upto_def)
  have lt: "unat i < 256" using unsigned_less [of i, where 'a = nat] by simp
  show "ecc_f_lut eccedc_init ! unat (i::ecc_uint8) = forward_byte i"
    "ecc_b_lut eccedc_init ! unat (i XOR forward_byte i) = i"
    "length (ecc_f_lut eccedc_init) = 256" "length (ecc_b_lut eccedc_init) = 256"
    using init_upto_inv [of 256] lt by (simp_all add: e)
qed

text \<open>Claim C6. After \<^verbatim>\<open>eccedc_init\<close>, for every byte \<open>i\<close> the forward table holds
  \<open>((i << 1) xor (0x11D if bit7(i) else 0))\<close> truncated to 8 bits at \<open>i\<close>, and the backward
  table holds \<open>i\<close> at index \<open>i xor forwardTable[i]\<close>.\<close>

theorem C6_backward_of_forward:
  "ecc_f_lut eccedc_init ! unat i = forward_byte i \<and>
   ecc_b_lut eccedc_init ! unat (i XOR ecc_f_lut eccedc_init ! unat i) = i"
  by (simp add: init_tables)

text \<open>Claim C7 as stated fails: the two tables are not inverse to each other. At
  \<open>i = 1\<close> the forward table holds 2 and the backward table holds 0xF5 at 2.\<close>

theorem C7_not_mutually_inverse: "ecc_b_lut eccedc_init ! unat (ecc_f_lut eccedc_init ! unat (1::ecc_uint8)) \<noteq> 1"
proof -
  have f1: "ecc_f_lut eccedc_init ! unat (1::ecc_uint8) = 2"
    using init_tables(1) [of 1] by (simp add: forward_byte_def)
  have "ecc_b_lut eccedc_init ! unat ((0xF5::ecc_uint8) XOR forward_byte 0xF5) = 0xF5"
    by (rule init_tables(2))
  then have "ecc_b_lut eccedc_init ! unat (2::ecc_uint8) = 0xF5" 
    by (simp add: forward_byte_def)
  then show ?thesis using f1 by simp
qed

lemma unat_u8_lt: "unat (w::ecc_uint8) < 256"
  using unsigned_less [of w, where 'a = nat] by simp

lemma fb_surj: "\<exists>i::ecc_uint8. i XOR forward_byte i = x"
proof -
  have "inj (\<lambda>i::ecc_uint8. i XOR forward_byte i)" by (rule injI) (rule fb_inj)
  then have "surj (\<lambda>i::ecc_uint8. i XOR forward_byte i)" by (rule finite_UNIV_inj_surj [OF finite])
  then show ?thesis by (metis surjD)
qed

lemma init_b_right: "ecc_b_lut eccedc_init ! unat x XOR forward_byte (ecc_b_lut eccedc_init ! unat x) = x"
proof -
  obtain i where i: "i XOR forward_byte i = x" using fb_surj by blast
  have "ecc_b_lut eccedc_init ! unat (i XOR forward_byte i) = i" by (rule init_tables(2))
  then show ?thesis using i by simp
qed

lemma init_f_distinct: "distinct (ecc_f_lut eccedc_init)"
proof -
  have "ecc_f_lut eccedc_init ! i \<noteq> ecc_f_lut eccedc_init ! j" if "i < 256" "j < 256" "i \<noteq> j" for i j
  proof -
    have ui: "unat (of_nat i :: ecc_uint8) = i" and uj: "unat (of_nat j :: ecc_uint8) = j"
      using that by (simp_all add: unat_of_nat)
    have "(of_nat i :: ecc_uint8) \<noteq> of_nat j" using ui uj that(3) by auto
    then have "forward_byte (of_nat i) \<noteq> forward_byte (of_nat j)" using forward_byte_inj by blast
    then show ?thesis using init_tables(1) [of "of_nat i"] init_tables(1) [of "of_nat j"] ui uj by simp
  qed
  then show ?thesis by (simp add: distinct_conv_nth init_tables(3))
qed

lemma init_b_distinct: "distinct (ecc_b_lut eccedc_init)"
proof -
  have "ecc_b_lut eccedc_init ! i \<noteq> ecc_b_lut eccedc_init ! j" if "i < 256" "j < 256" "i \<noteq> j" for i j
  proof
    assume e: "ecc_b_lut eccedc_init ! i = ecc_b_lut eccedc_init ! j"
    have ui: "unat (of_nat i :: ecc_uint8) = i" and uj: "unat (of_nat j :: ecc_uint8) = j"
      using that by (simp_all add: unat_of_nat)
    have "(of_nat i :: ecc_uint8) =
          ecc_b_lut eccedc_init ! i XOR forward_byte (ecc_b_lut eccedc_init ! i)"
      by (rule init_b_right [of "of_nat i", unfolded ui, symmetric])
    also have "\<dots> = ecc_b_lut eccedc_init ! j XOR forward_byte (ecc_b_lut eccedc_init ! j)"
      by (simp only: e)
    also have "\<dots> = of_nat j"
      by (rule init_b_right [of "of_nat j", unfolded uj])
    finally have "unat (of_nat i :: ecc_uint8) = unat (of_nat j :: ecc_uint8)" by (rule arg_cong)
    then show False using that(3) by (simp only: ui uj)
  qed
  then show ?thesis by (simp add: distinct_conv_nth init_tables(4))
qed

text \<open>Claim C7, amended. Each table is a permutation of the 256 byte values (256 entries,
  all distinct), and the backward table is the inverse of the permutation
  \<open>i \<mapsto> i xor forwardTable[i]\<close>, in both directions.\<close>

theorem C7_permutations:
  "distinct (ecc_f_lut eccedc_init) \<and> length (ecc_f_lut eccedc_init) = 256 \<and>
   distinct (ecc_b_lut eccedc_init) \<and> length (ecc_b_lut eccedc_init) = 256 \<and>
   ecc_b_lut eccedc_init ! unat (i XOR ecc_f_lut eccedc_init ! unat i) = i \<and>
   ecc_b_lut eccedc_init ! unat i XOR
     ecc_f_lut eccedc_init ! unat (ecc_b_lut eccedc_init ! unat i) = i"
  using init_b_right [of i]
  by (simp add: init_f_distinct init_b_distinct init_tables)

section \<open>Properties of the checksum\<close>

lemma edc_partial_fold:
  "n \<le> length src \<Longrightarrow> n < 65536 \<Longrightarrow>
   edc_partial_computeblock L edc src (of_nat n) = fold (\<lambda>b e. edc_byte L e b) (take n src) edc"
proof (induction n arbitrary: edc src)
  case 0
  then show ?case by (simp add: edc_partial_computeblock.simps)
next
  case (Suc n)
  then obtain x xs where src: "src = x # xs" by (cases src) auto
  have "unat (of_nat (Suc n) :: ecc_uint16) = Suc n"
    using Suc.prems(2) by (simp add: unat_of_nat del: of_nat_Suc)
  then have nz: "(of_nat (Suc n) :: ecc_uint16) \<noteq> 0" by auto
  have "edc_partial_computeblock L edc src (of_nat (Suc n)) =
        edc_partial_computeblock L (edc_byte L edc x) xs (of_nat n)"
    using nz by (subst edc_partial_computeblock.simps) (simp add: src)
  also have "\<dots> = fold (\<lambda>b e. edc_byte L e b) (take n xs) (edc_byte L edc x)"
    using Suc.prems by (intro Suc.IH) (simp_all add: src)
  finally show ?case by (simp add: src)
qed

lemma edc_partial_zero: "edc_partial_computeblock L acc src 0 = acc"
  by (subst edc_partial_computeblock.simps) simp

lemma fold_edc_byte_accumulate:
  "fold (\<lambda>b e. edc_byte L e b) bytes acc = accumulate (edc_lut L) acc bytes"
  by (induction bytes arbitrary: acc) (simp_all add: edc_byte_def)

lemma edc_partial_accumulate:
  "n \<le> length src \<Longrightarrow> n < 65536 \<Longrightarrow>
   edc_partial_computeblock L edc src (of_nat n) = accumulate (edc_lut L) edc (take n src)"
  by (simp add: edc_partial_fold fold_edc_byte_accumulate)

lemma accumulate_append:
  "accumulate T acc (A @ B) = accumulate T (accumulate T acc A) B"
  by (induction A arbitrary: acc) simp_all

text \<open>Claim C3. Accumulating no bytes leaves the accumulator unchanged (from 0 it gives 0);
  accumulating \<open>A\<close> and then \<open>B\<close> equals accumulating \<open>A @ B\<close>, for byte sequences whose
  total length fits the 16-bit size parameter; and one byte updates the accumulator as
  \<open>(acc >> 8) xor checksumTable[(acc xor byte) & 0xFF]\<close>.\<close>

theorem C3_accumulate:
  assumes "length A + length B < 65536"
  shows "edc_partial_computeblock L acc [] 0 = acc \<and>
         edc_partial_computeblock L 0 [] 0 = 0 \<and>
         edc_partial_computeblock L (edc_partial_computeblock L acc A (of_nat (length A))) B
             (of_nat (length B)) =
           edc_partial_computeblock L acc (A @ B) (of_nat (length (A @ B))) \<and>
         edc_partial_computeblock L acc [b] 1 =
           drop_bit 8 acc XOR edc_lut L ! unat ((acc XOR ucast b) AND 0xFF)"
proof -
  have one: "edc_partial_computeblock L acc [b] (of_nat 1) = edc_byte L acc b"
    by (subst edc_partial_fold) simp_all
  have a: "edc_partial_computeblock L acc A (of_nat (length A)) = fold (\<lambda>b e. edc_byte L e b) A acc"
    using assms by (subst edc_partial_fold) simp_all
  have b: "edc_partial_computeblock L x B (of_nat (length B)) = fold (\<lambda>b e. edc_byte L e b) B x" for x
    using assms by (subst edc_partial_fold) simp_all
  have ab: "edc_partial_computeblock L acc (A @ B) (of_nat (length (A @ B))) =
            fold (\<lambda>b e. edc_byte L e b) (A @ B) acc"
    using assms by (subst edc_partial_fold) simp_all
  show ?thesis
    unfolding a b ab using one by (simp add: edc_partial_zero edc_byte_def)
qed

text \<open>Claim C3 at \<open>A = [1, 2]\<close>, \<open>B = [3]\<close>, starting from 0 with the tables of
  \<^verbatim>\<open>eccedc_init\<close>.\<close>

theorem C3_accumulate_witness:
  "length [1, 2 :: ecc_uint8] + length [3 :: ecc_uint8] < 65536 \<and>
   (edc_partial_computeblock eccedc_init 0 [] 0 = 0 \<and>
    edc_partial_computeblock eccedc_init 0 [] 0 = 0 \<and>
    edc_partial_computeblock eccedc_init
      (edc_partial_computeblock eccedc_init 0 [1, 2] (of_nat (length [1, 2 :: ecc_uint8]))) [3]
      (of_nat (length [3 :: ecc_uint8])) =
    edc_partial_computeblock eccedc_init 0 ([1, 2] @ [3])
      (of_nat (length ([1, 2] @ [3 :: ecc_uint8]))) \<and>
    edc_partial_computeblock eccedc_init 0 [7] 1 =
      drop_bit 8 0 XOR edc_lut eccedc_init ! unat (((0 :: ecc_uint32) XOR ucast (7 :: ecc_uint8)) AND 0xFF))"
proof -
  have h: "length [1, 2 :: ecc_uint8] + length [3 :: ecc_uint8] < 65536" by simp
  note t = C3_accumulate [where A = "[1, 2]" and B = "[3]" and L = eccedc_init and acc = 0 and b = 7, OF h]
  show ?thesis using h t by (rule conjI)
qed

section \<open>Properties of the parity index\<close>

lemma next_index_unat:
  assumes "unat index < unat sz" "unat inc \<le> unat sz" "unat sz + unat inc < 2 ^ 32"
  shows "unat (ecc_next_index sz inc index) = (unat index + unat inc) mod unat sz"
    and "unat (ecc_next_index sz inc index) < unat sz"
proof -
  have add: "unat (index + inc) = unat index + unat inc"
    using assms by (simp add: unat_word_ariths)
  have e: "unat (ecc_next_index sz inc index) =
        (if unat sz \<le> unat index + unat inc then unat index + unat inc - unat sz
         else unat index + unat inc)"
    using add by (simp add: ecc_next_index_def Let_def word_le_nat_alt unat_sub)
  show "unat (ecc_next_index sz inc index) < unat sz"
    using assms unfolding e by (simp split: if_splits) arith
  show "unat (ecc_next_index sz inc index) = (unat index + unat inc) mod unat sz"
  proof (cases "unat sz \<le> unat index + unat inc")
    case True
    then have "(unat index + unat inc) mod unat sz = (unat index + unat inc - unat sz) mod unat sz"
      by (simp add: le_mod_geq)
    also have "\<dots> = unat index + unat inc - unat sz" using assms by simp
    finally show ?thesis using True by (simp add: e)
  next
    case False
    then show ?thesis by (simp add: e)
  qed
qed

lemma start_index_unat:
  assumes "unat major < 2 ^ 16" "unat mult < 2 ^ 15"
  shows "unat (ecc_start_index mult major) = (unat major div 2) * unat mult + unat major mod 2"
proof -
  have d: "unat (drop_bit 1 major) = unat major div 2"
    by (simp add: drop_bit_eq_div unat_div)
  have a: "unat (major AND 1) = unat major mod 2"
    by (simp add: and_one_eq unat_mod)
  have "unat major div 2 * unat mult < 2 ^ 16 * 2 ^ 15"
    using assms by (intro mult_strict_mono) simp_all
  then have lt: "unat major div 2 * unat mult < 2 ^ 31" by simp
  then have m: "unat (drop_bit 1 major * mult) = unat major div 2 * unat mult"
    using d by (simp add: unat_word_ariths)
  have "unat major div 2 * unat mult + unat major mod 2 < 2 ^ 32" using lt by simp
  then show ?thesis
    unfolding ecc_start_index_def using m a by (simp add: unat_word_ariths)
qed

lemma minor_loop_walk:
  assumes "unat inc \<le> unat sz" "unat sz + unat inc < 2 ^ 32"
    and "\<forall>k<unat sz. s ! (src + k) = buffer ! k"
  shows "unat index < unat sz \<Longrightarrow>
         snd (ecc_minor_loop L s src sz inc n (index, a, b)) =
           parity_walk L buffer (unat sz) (unat inc) n (unat index) (a, b) \<and>
         unat (fst (ecc_minor_loop L s src sz inc n (index, a, b))) < unat sz"
proof (induction n arbitrary: index a b)
  case 0
  then show ?case by simp
next
  case (Suc n)
  have r: "s ! (src + unat index) = buffer ! unat index" using assms(3) Suc.prems by simp
  have nx: "unat (ecc_next_index sz inc index) = (unat index + unat inc) mod unat sz"
    "unat (ecc_next_index sz inc index) < unat sz"
    using next_index_unat [OF Suc.prems assms(1,2)] by simp_all
  show ?case
    using Suc.IH [OF nx(2)] by (simp add: Let_def r nx(1))
qed

lemma minor_loop_fst:
  "fst (ecc_minor_loop L s src sz inc n (index, a, b)) = (ecc_next_index sz inc ^^ n) index"
  by (induction n arbitrary: index a b) (simp_all add: Let_def funpow_swap1)

lemma index_iter_bound:
  assumes "unat inc \<le> unat sz" "unat sz + unat inc < 2 ^ 32" "unat index < unat sz"
  shows "unat ((ecc_next_index sz inc ^^ n) index) < unat sz"
proof (induction n)
  case 0
  then show ?case using assms(3) by simp
next
  case (Suc n)
  show ?case using next_index_unat(2) [OF Suc.IH assms(1,2)] by simp
qed

lemma read_index_bound:
  assumes "unat minor_inc \<le> unat (major_count * minor_count)"
    "unat (major_count * minor_count) + unat minor_inc < 2 ^ 32"
    "unat (ecc_start_index major_mult major) < unat (major_count * minor_count)"
  shows "unat (ecc_read_index L s src major_count minor_count major_mult minor_inc major minor)
           < unat (major_count * minor_count)"
  unfolding ecc_read_index_def minor_loop_fst
  by (rule index_iter_bound [OF assms])

lemma start_index_P: "major < 86 \<Longrightarrow> unat (ecc_start_index 2 major) < 2064"
proof -
  assume "major < 86"
  then have m: "unat major < 86" by (simp add: word_less_nat_alt)
  then have "unat (ecc_start_index 2 major) = (unat major div 2) * 2 + unat major mod 2"
    by (subst start_index_unat) simp_all
  then show ?thesis using m by simp
qed

lemma start_index_Q: "major < 52 \<Longrightarrow> unat (ecc_start_index 86 major) < 2236"
proof -
  assume "major < 52"
  then have m: "unat major < 52" by (simp add: word_less_nat_alt)
  then have "unat (ecc_start_index 86 major) = (unat major div 2) * 86 + unat major mod 2"
    by (subst start_index_unat) simp_all
  then show ?thesis using m by simp
qed

text \<open>Claim C10. With the P parameters (86, 24, 2, 86) and the Q parameters
  (52, 43, 86, 88), at every read of the inner loop the index is below
  \<open>major_count * minor_count\<close>, so the read lies in the sector buffer behind offset 0xC;
  the addition of the increment does not overflow 32 bits; and one conditional subtraction
  gives the index reduced modulo the region size, again below the region size.\<close>

theorem C10_parity_index_in_range:
  assumes "(major_count, minor_count, major_mult, minor_inc) = (86, 24, 2, 86) \<or>
           (major_count, minor_count, major_mult, minor_inc) = (52, 43, 86, 88)"
    and "major < major_count"
  shows "unat (ecc_read_index L s 0xC major_count minor_count major_mult minor_inc major minor)
           < unat major_count * unat minor_count \<and>
         0xC + unat (ecc_read_index L s 0xC major_count minor_count major_mult minor_inc major minor)
           < 2352 \<and>
         unat (ecc_read_index L s 0xC major_count minor_count major_mult minor_inc major minor)
           + unat minor_inc < 2 ^ 32 \<and>
         unat (ecc_next_index (major_count * minor_count) minor_inc
                 (ecc_read_index L s 0xC major_count minor_count major_mult minor_inc major minor))
           = (unat (ecc_read_index L s 0xC major_count minor_count major_mult minor_inc major minor)
                + unat minor_inc) mod (unat major_count * unat minor_count) \<and>
         unat (ecc_next_index (major_count * minor_count) minor_inc
                 (ecc_read_index L s 0xC major_count minor_count major_mult minor_inc major minor))
           < unat major_count * unat minor_count"
  using assms(1)
proof
  assume p: "(major_count, minor_count, major_mult, minor_inc) = (86, 24, 2, 86)"
  then have m: "major < 86" using assms(2) by simp
  have b: "unat (ecc_read_index L s 0xC 86 24 2 86 major minor) < unat (86 * 24 :: ecc_uint32)"
    by (rule read_index_bound) (use start_index_P [OF m] in simp_all)
  have n: "unat (ecc_next_index (86 * 24) 86 (ecc_read_index L s 0xC 86 24 2 86 major minor))
             = (unat (ecc_read_index L s 0xC 86 24 2 86 major minor) + unat (86 :: ecc_uint32))
                 mod unat (86 * 24 :: ecc_uint32)"
    "unat (ecc_next_index (86 * 24) 86 (ecc_read_index L s 0xC 86 24 2 86 major minor))
             < unat (86 * 24 :: ecc_uint32)"
    using next_index_unat [OF b, of 86] by simp_all
  show ?thesis using p b n by simp
next
  assume q: "(major_count, minor_count, major_mult, minor_inc) = (52, 43, 86, 88)"
  then have m: "major < 52" using assms(2) by simp
  have b: "unat (ecc_read_index L s 0xC 52 43 86 88 major minor) < unat (52 * 43 :: ecc_uint32)"
    by (rule read_index_bound) (use start_index_Q [OF m] in simp_all)
  have n: "unat (ecc_next_index (52 * 43) 88 (ecc_read_index L s 0xC 52 43 86 88 major minor))
             = (unat (ecc_read_index L s 0xC 52 43 86 88 major minor) + unat (88 :: ecc_uint32))
                 mod unat (52 * 43 :: ecc_uint32)"
    "unat (ecc_next_index (52 * 43) 88 (ecc_read_index L s 0xC 52 43 86 88 major minor))
             < unat (52 * 43 :: ecc_uint32)"
    using next_index_unat [OF b, of 88] by simp_all
  show ?thesis using q b n by simp
qed

text \<open>Claim C10 for the last read of the P computation: \<open>major = 85\<close>, \<open>minor = 23\<close>, on
  a zero sector.\<close>

theorem C10_parity_index_in_range_witness:
  "((86 :: ecc_uint32, 24 :: ecc_uint32, 2 :: ecc_uint32, 86 :: ecc_uint32) = (86, 24, 2, 86) \<or>
    (86 :: ecc_uint32, 24 :: ecc_uint32, 2 :: ecc_uint32, 86 :: ecc_uint32) = (52, 43, 86, 88)) \<and>
   (85 :: ecc_uint32) < 86 \<and>
   unat (ecc_read_index eccedc_init (replicate 2352 0) 0xC 86 24 2 86 85 23)
     < unat (86 :: ecc_uint32) * unat (24 :: ecc_uint32) \<and>
   0xC + unat (ecc_read_index eccedc_init (replicate 2352 0) 0xC 86 24 2 86 85 23) < 2352"
proof -
  have h1: "(86 :: ecc_uint32, 24 :: ecc_uint32, 2 :: ecc_uint32, 86 :: ecc_uint32) = (86, 24, 2, 86) \<or>
    (86 :: ecc_uint32, 24 :: ecc_uint32, 2 :: ecc_uint32, 86 :: ecc_uint32) = (52, 43, 86, 88)"
    by simp
  have h2: "(85 :: ecc_uint32) < 86" by simp
  show ?thesis
    using h1 h2 C10_parity_index_in_range [OF h1 h2, of eccedc_init "replicate 2352 0" 23]
    by (intro conjI) (elim conjE, assumption)+
qed

section \<open>The parity loops compute the reference parity\<close>

lemma major_body_spec:
  fixes major_count minor_count major_mult minor_inc :: ecc_uint32
  assumes geo: "unat minor_inc \<le> unat major_count * unat minor_count"
      "unat major_count * unat minor_count + unat minor_inc < 2 ^ 32"
      "unat major_count < 2 ^ 15" "unat major_mult < 2 ^ 15"
    and m: "m < unat major_count"
    and start: "(m div 2) * unat major_mult + m mod 2 < unat major_count * unat minor_count"
    and agree: "\<forall>k < unat major_count * unat minor_count. s ! (src + k) = buffer ! k"
  shows "ecc_major_body L src major_count minor_count major_mult minor_inc dest (of_nat m) s =
         s[dest + m := fst (parity_pair L buffer (unat major_count) (unat minor_count)
                              (unat major_mult) (unat minor_inc) m),
           dest + (m + unat major_count) :=
             snd (parity_pair L buffer (unat major_count) (unat minor_count)
                              (unat major_mult) (unat minor_inc) m)]"
proof -
  have sz: "unat (major_count * minor_count) = unat major_count * unat minor_count"
    using geo(2) by (simp add: unat_word_ariths)
  have um: "unat (of_nat m :: ecc_uint32) = m"
    using m geo(3) by (simp add: unat_of_nat)
  have umc: "unat (of_nat m + major_count :: ecc_uint32) = m + unat major_count"
    using m geo(3) um by (simp add: unat_word_ariths)
  have st: "unat (ecc_start_index major_mult (of_nat m)) = (m div 2) * unat major_mult + m mod 2"
    using start_index_unat [of "of_nat m" major_mult] m geo(3,4) by (simp add: um)
  have w: "snd (ecc_minor_loop L s src (major_count * minor_count) minor_inc (unat minor_count)
                 (ecc_start_index major_mult (of_nat m), 0, 0)) =
           parity_walk L buffer (unat major_count * unat minor_count) (unat minor_inc)
             (unat minor_count) ((m div 2) * unat major_mult + m mod 2) (0, 0)"
    using minor_loop_walk [of minor_inc "major_count * minor_count" s src buffer
        "ecc_start_index major_mult (of_nat m)" L "unat minor_count" 0 0]
      geo(1,2) agree start
    by (simp add: sz st)
  obtain i' a b where l: "ecc_minor_loop L s src (major_count * minor_count) minor_inc
      (unat minor_count) (ecc_start_index major_mult (of_nat m), 0, 0) = (i', a, b)"
    by (metis prod_cases3)
  have nat_bits: "drop_bit 1 m * unat major_mult + (m AND 1) = (m div 2) * unat major_mult + m mod 2"
    by (simp add: drop_bit_eq_div and_one_eq)
  have pw: "parity_walk L buffer (unat major_count * unat minor_count) (unat minor_inc)
             (unat minor_count) (drop_bit 1 m * unat major_mult + (m AND 1)) (0, 0) = (a, b)"
    using w unfolding l nat_bits by simp
  show ?thesis
    using pw
    by (simp add: ecc_major_body_def parity_pair_def Let_def l um umc del: parity_walk.simps)
qed

lemma computeblock_upto:
  fixes major_count minor_count major_mult minor_inc :: ecc_uint32
  assumes geo: "unat minor_inc \<le> unat major_count * unat minor_count"
      "unat major_count * unat minor_count + unat minor_inc < 2 ^ 32"
      "unat major_count < 2 ^ 15" "unat major_mult < 2 ^ 15"
    and start: "\<forall>m<unat major_count.
        (m div 2) * unat major_mult + m mod 2 < unat major_count * unat minor_count"
    and lay: "src + unat major_count * unat minor_count \<le> dest"
      "dest + 2 * unat major_count \<le> length s"
    and buf: "\<forall>k < unat major_count * unat minor_count. s ! (src + k) = buffer ! k"
  shows "m \<le> unat major_count \<Longrightarrow>
    length (fold (ecc_major_body L src major_count minor_count major_mult minor_inc dest)
              (map of_nat [0..<m]) s) = length s \<and>
    (\<forall>k<length s.
       fold (ecc_major_body L src major_count minor_count major_mult minor_inc dest)
         (map of_nat [0..<m]) s ! k =
       parity_image L s buffer (unat major_count) (unat minor_count) (unat major_mult)
         (unat minor_inc) dest m k)"
proof (induction m)
  case 0
  then show ?case by (auto simp: parity_image_def)
next
  case (Suc m)
  let ?f = "ecc_major_body L src major_count minor_count major_mult minor_inc dest"
  let ?r = "fold ?f (map of_nat [0..<m]) s"
  let ?pp = "parity_pair L buffer (unat major_count) (unat minor_count) (unat major_mult)
               (unat minor_inc)"
  from Suc have m: "m < unat major_count" and len: "length ?r = length s"
    and IH: "\<And>k. k < length s \<Longrightarrow> ?r ! k =
       parity_image L s buffer (unat major_count) (unat minor_count) (unat major_mult)
         (unat minor_inc) dest m k"
    by simp_all
  have agree: "\<forall>k < unat major_count * unat minor_count. ?r ! (src + k) = buffer ! k"
  proof (intro allI impI)
    fix k assume k: "k < unat major_count * unat minor_count"
    then have "src + k < dest" using lay(1) by simp
    moreover have "src + k < length s" using k lay by simp
    ultimately have "?r ! (src + k) = s ! (src + k)" by (simp add: IH parity_image_def)
    then show "?r ! (src + k) = buffer ! k" using buf k by simp
  qed
  have st: "(m div 2) * unat major_mult + m mod 2 < unat major_count * unat minor_count"
    using start m by simp
  have step: "fold ?f (map of_nat [0..<Suc m]) s =
      ?r[dest + m := fst (?pp m), dest + (m + unat major_count) := snd (?pp m)]"
    using major_body_spec [OF geo m st agree, of L dest] by simp
  have l: "length (fold ?f (map of_nat [0..<Suc m]) s) = length s"
    unfolding step by (simp add: len)
  have n: "fold ?f (map of_nat [0..<Suc m]) s ! k =
       parity_image L s buffer (unat major_count) (unat minor_count) (unat major_mult)
         (unat minor_inc) dest (Suc m) k" if k: "k < length s" for k
  proof -
    consider "k = dest + (m + unat major_count)" | "k = dest + m"
      | "k \<noteq> dest + (m + unat major_count)" "k \<noteq> dest + m" by blast
    then show ?thesis
    proof cases
      case 1
      then show ?thesis using k m unfolding step by (simp add: len parity_image_def)
    next
      case 2
      then show ?thesis using k m unfolding step by (simp add: len parity_image_def)
    next
      case 3
      then have "fold ?f (map of_nat [0..<Suc m]) s ! k = ?r ! k" unfolding step by simp
      also have "\<dots> = parity_image L s buffer (unat major_count) (unat minor_count)
          (unat major_mult) (unat minor_inc) dest m k" using k by (rule IH)
      also have "\<dots> = parity_image L s buffer (unat major_count) (unat minor_count)
          (unat major_mult) (unat minor_inc) dest (Suc m) k"
        using 3 m unfolding parity_image_def by auto
      finally show ?thesis .
    qed
  qed
  show ?case using l n by blast
qed

lemma computeblock_image:
  fixes major_count minor_count major_mult minor_inc :: ecc_uint32
  assumes "unat minor_inc \<le> unat major_count * unat minor_count"
      "unat major_count * unat minor_count + unat minor_inc < 2 ^ 32"
      "unat major_count < 2 ^ 15" "unat major_mult < 2 ^ 15"
    and "\<forall>m<unat major_count.
        (m div 2) * unat major_mult + m mod 2 < unat major_count * unat minor_count"
    and "src + unat major_count * unat minor_count \<le> dest"
      "dest + 2 * unat major_count \<le> length s"
  shows "length (ecc_computeblock L s src major_count minor_count major_mult minor_inc dest)
           = length s"
    and "k < length s \<Longrightarrow>
         ecc_computeblock L s src major_count minor_count major_mult minor_inc dest ! k =
         parity_image L s (drop src s) (unat major_count) (unat minor_count) (unat major_mult)
           (unat minor_inc) dest (unat major_count) k"
proof -
  have buf: "\<forall>k < unat major_count * unat minor_count. s ! (src + k) = drop src s ! k"
    using assms(6,7) by simp
  note r = computeblock_upto [OF assms buf, of "unat major_count" L, simplified]
  show "length (ecc_computeblock L s src major_count minor_count major_mult minor_inc dest)
           = length s"
    using r unfolding ecc_computeblock_def by blast
  show "k < length s \<Longrightarrow>
         ecc_computeblock L s src major_count minor_count major_mult minor_inc dest ! k =
         parity_image L s (drop src s) (unat major_count) (unat minor_count) (unat major_mult)
           (unat minor_inc) dest (unat major_count) k"
    using r unfolding ecc_computeblock_def by blast
qed

lemma computeblock_P:
  assumes "length s = 2352"
  shows "ecc_computeblock L s 0xC 86 24 2 86 0x81C =
         take 0x81C s @ fst (computeParity L (drop 0xC s) 86 24 2 86) @
           snd (computeParity L (drop 0xC s) 86 24 2 86) @ drop 0x8C8 s"
proof (rule nth_equalityI)
  have st: "\<forall>m<unat (86 :: ecc_uint32). (m div 2) * unat (2 :: ecc_uint32) + m mod 2
              < unat (86 :: ecc_uint32) * unat (24 :: ecc_uint32)"
    by (simp; arith)
  note im = computeblock_image [where minor_inc = 86 and major_count = 86 and minor_count = 24
      and major_mult = 2 and src = "0xC" and dest = "0x81C" and s = s and L = L, OF _ _ _ _ st]
  show len: "length (ecc_computeblock L s 0xC 86 24 2 86 0x81C) =
        length (take 0x81C s @ fst (computeParity L (drop 0xC s) 86 24 2 86) @
           snd (computeParity L (drop 0xC s) 86 24 2 86) @ drop 0x8C8 s)"
    using assms by (subst im(1)) (simp_all add: computeParity_def)
  fix k assume "k < length (ecc_computeblock L s 0xC 86 24 2 86 0x81C)"
  then have k: "k < 2352" using assms by (subst (asm) im(1)) simp_all
  have "ecc_computeblock L s 0xC 86 24 2 86 0x81C ! k =
        parity_image L s (drop 0xC s) 86 24 2 86 0x81C 86 k"
    using im(2) [of k] k assms by simp
  also have "\<dots> = (take 0x81C s @ fst (computeParity L (drop 0xC s) 86 24 2 86) @
           snd (computeParity L (drop 0xC s) 86 24 2 86) @ drop 0x8C8 s) ! k"
    using k assms by (auto simp: parity_image_def computeParity_def nth_append)
  finally show "ecc_computeblock L s 0xC 86 24 2 86 0x81C ! k =
     (take 0x81C s @ fst (computeParity L (drop 0xC s) 86 24 2 86) @
           snd (computeParity L (drop 0xC s) 86 24 2 86) @ drop 0x8C8 s) ! k" .
qed

lemma computeblock_Q:
  assumes "length s = 2352"
  shows "ecc_computeblock L s 0xC 52 43 86 88 0x8C8 =
         take 0x8C8 s @ fst (computeParity L (drop 0xC s) 52 43 86 88) @
           snd (computeParity L (drop 0xC s) 52 43 86 88)"
proof (rule nth_equalityI)
  have st: "\<forall>m<unat (52 :: ecc_uint32). (m div 2) * unat (86 :: ecc_uint32) + m mod 2
              < unat (52 :: ecc_uint32) * unat (43 :: ecc_uint32)"
    by (simp; arith)
  note im = computeblock_image [where minor_inc = 88 and major_count = 52 and minor_count = 43
      and major_mult = 86 and src = "0xC" and dest = "0x8C8" and s = s and L = L, OF _ _ _ _ st]
  show len: "length (ecc_computeblock L s 0xC 52 43 86 88 0x8C8) =
        length (take 0x8C8 s @ fst (computeParity L (drop 0xC s) 52 43 86 88) @
           snd (computeParity L (drop 0xC s) 52 43 86 88))"
    using assms by (subst im(1)) (simp_all add: computeParity_def)
  fix k assume "k < length (ecc_computeblock L s 0xC 52 43 86 88 0x8C8)"
  then have k: "k < 2352" using assms by (subst (asm) im(1)) simp_all
  have "ecc_computeblock L s 0xC 52 43 86 88 0x8C8 ! k =
        parity_image L s (drop 0xC s) 52 43 86 88 0x8C8 52 k"
    using im(2) [of k] k assms by simp
  also have "\<dots> = (take 0x8C8 s @ fst (computeParity L (drop 0xC s) 52 43 86 88) @
           snd (computeParity L (drop 0xC s) 52 43 86 88)) ! k"
    using k assms by (auto simp: parity_image_def computeParity_def nth_append)
  finally show "ecc_computeblock L s 0xC 52 43 86 88 0x8C8 ! k =
     (take 0x8C8 s @ fst (computeParity L (drop 0xC s) 52 43 86 88) @
           snd (computeParity L (drop 0xC s) 52 43 86 88)) ! k" .
qed

text \<open>Claim C4. On a 2352-byte sector, \<^verbatim>\<open>ecc_computeblock\<close> with the P parameters
  (86 majors, 24 minors, stride 2, increment 86) writes at offset 0x81C the two arrays of
  the reference parity \<^const>\<open>computeParity\<close> over the region that starts at offset 0xC
  (final bytes at positions \<open>major\<close>, final bytes xor \<open>b\<close> at positions \<open>major + 86\<close>) and
  changes nothing else; with the Q parameters (52, 43, 86, 88) it does the same at offset
  0x8C8; and \<^verbatim>\<open>ecc_generate\<close> runs P and then Q.\<close>

theorem C4_parity_engine:
  assumes "length s = 2352"
  shows "ecc_computeblock L s 0xC 86 24 2 86 0x81C =
           take 0x81C s @ fst (computeParity L (drop 0xC s) 86 24 2 86) @
             snd (computeParity L (drop 0xC s) 86 24 2 86) @ drop 0x8C8 s \<and>
         ecc_computeblock L s 0xC 52 43 86 88 0x8C8 =
           take 0x8C8 s @ fst (computeParity L (drop 0xC s) 52 43 86 88) @
             snd (computeParity L (drop 0xC s) 52 43 86 88) \<and>
         ecc_generate L s False =
           ecc_computeblock L (ecc_computeblock L s 0xC 86 24 2 86 0x81C) 0xC 52 43 86 88 0x8C8"
  using computeblock_P [OF assms] computeblock_Q [OF assms]
  by (simp add: ecc_generate_def Let_def)

text \<open>Claim C4 on the sector whose byte at offset \<open>i\<close> is \<open>i mod 256\<close>, with the tables of
  \<^verbatim>\<open>eccedc_init\<close>.\<close>

theorem C4_parity_engine_witness:
  "length (map of_nat [0..<2352] :: ecc_uint8 list) = 2352 \<and>
   ecc_computeblock eccedc_init (map of_nat [0..<2352]) 0xC 86 24 2 86 0x81C =
           take 0x81C (map of_nat [0..<2352]) @
             fst (computeParity eccedc_init (drop 0xC (map of_nat [0..<2352])) 86 24 2 86) @
             snd (computeParity eccedc_init (drop 0xC (map of_nat [0..<2352])) 86 24 2 86) @
             drop 0x8C8 (map of_nat [0..<2352])"
proof -
  have h: "length (map of_nat [0..<2352] :: ecc_uint8 list) = 2352" by simp
  show ?thesis
    using h C4_parity_engine [OF h, of eccedc_init]
    by (intro conjI) (elim conjE, assumption)+
qed

lemma length_computeblock_P: "length s = 2352 \<Longrightarrow> length (ecc_computeblock L s 0xC 86 24 2 86 0x81C) = 2352"
  by (simp add: computeblock_P computeParity_def)

lemma length_computeblock_Q: "length s = 2352 \<Longrightarrow> length (ecc_computeblock L s 0xC 52 43 86 88 0x8C8) = 2352"
  by (simp add: computeblock_Q computeParity_def)

lemma ecc_generate_False:
  "ecc_generate L s False =
     ecc_computeblock L (ecc_computeblock L s 0xC 86 24 2 86 0x81C) 0xC 52 43 86 88 0x8C8"
  by (simp add: ecc_generate_def Let_def)

lemma length_ecc_generate_False: "length s = 2352 \<Longrightarrow> length (ecc_generate L s False) = 2352"
  by (simp add: ecc_generate_False length_computeblock_P length_computeblock_Q)

lemma take_ecc_generate_False:
  assumes "length s = 2352"
  shows "take 0x81C (ecc_generate L s False) = take 0x81C s"
proof -
  let ?p = "ecc_computeblock L s 0xC 86 24 2 86 0x81C"
  have lp: "length ?p = 2352" using assms by (rule length_computeblock_P)
  have "take 0x81C (ecc_generate L s False) = take 0x81C ?p"
    unfolding ecc_generate_False by (subst computeblock_Q [OF lp]) (simp add: lp)
  also have "\<dots> = take 0x81C s"
    using assms by (subst computeblock_P [OF assms]) simp
  finally show ?thesis .
qed

section \<open>Frame properties of the parity and checksum generation\<close>

lemma upt_4: "[0..<4] = [0, 1, 2, 3]"
  by (simp add: upt_rec)

lemma upt_8: "[0..<8] = [0, 1, 2, 3, 4, 5, 6, 7]"
  by (simp add: upt_rec)

lemma address_save_zero_eq:
  "address_save_zero s =
     ([s ! 12, s ! 13, s ! 14, s ! 15], s[12 := 0, 13 := 0, 14 := 0, 15 := 0])"
  by (simp add: address_save_zero_def upt_4 numeral_eq_Suc)

lemma address_restore_eq:
  "address_restore [a, b, c, d] s = s[12 := a, 13 := b, 14 := c, 15 := d]"
  by (simp add: address_restore_def upt_4)

lemma ecc_generate_True:
  "ecc_generate L s True =
     (ecc_generate L (s[12 := 0, 13 := 0, 14 := 0, 15 := 0]) False)
       [12 := s ! 12, 13 := s ! 13, 14 := s ! 14, 15 := s ! 15]"
  by (simp add: ecc_generate_def Let_def address_save_zero_eq address_restore_eq)

lemma zero_restore:
  "(s[12 := 0, 13 := 0, 14 := 0, 15 := 0])[12 := s ! 12, 13 := s ! 13, 14 := s ! 14, 15 := s ! 15] = s"
proof (rule nth_equalityI)
  show "length ((s[12 := 0, 13 := 0, 14 := 0, 15 := 0])
          [12 := s ! 12, 13 := s ! 13, 14 := s ! 14, 15 := s ! 15]) = length s"
    by simp
  fix i
  assume "i < length ((s[12 := 0, 13 := 0, 14 := 0, 15 := 0])
          [12 := s ! 12, 13 := s ! 13, 14 := s ! 14, 15 := s ! 15])"
  then have i: "i < length s" by simp
  consider "i = 12" | "i = 13" | "i = 14" | "i = 15" | "i \<noteq> 12" "i \<noteq> 13" "i \<noteq> 14" "i \<noteq> 15"
    by blast
  then show "(s[12 := 0, 13 := 0, 14 := 0, 15 := 0])
          [12 := s ! 12, 13 := s ! 13, 14 := s ! 14, 15 := s ! 15] ! i = s ! i"
    using i by cases simp_all
qed

lemma take_ecc_generate_True:
  assumes "length s = 2352"
  shows "take 0x81C (ecc_generate L s True) = take 0x81C s"
proof -
  let ?z = "s[12 := 0, 13 := 0, 14 := 0, 15 := 0]"
  have lz: "length ?z = 2352" using assms by simp
  have "take 0x81C (ecc_generate L s True) =
        (take 0x81C (ecc_generate L ?z False))[12 := s ! 12, 13 := s ! 13, 14 := s ! 14, 15 := s ! 15]"
    unfolding ecc_generate_True by (simp add: take_update_swap)
  also have "\<dots> = (take 0x81C ?z)[12 := s ! 12, 13 := s ! 13, 14 := s ! 14, 15 := s ! 15]"
    by (simp only: take_ecc_generate_False [OF lz])
  also have "\<dots> = take 0x81C (?z[12 := s ! 12, 13 := s ! 13, 14 := s ! 14, 15 := s ! 15])"
    by (simp add: take_update_swap)
  also have "\<dots> = take 0x81C s" by (simp only: zero_restore)
  finally show ?thesis .
qed

lemma drop_ecc_generate_True:
  "drop 0x81C (ecc_generate L s True) =
   drop 0x81C (ecc_generate L (s[12 := 0, 13 := 0, 14 := 0, 15 := 0]) False)"
  unfolding ecc_generate_True by simp

lemma length_ecc_generate_True: "length s = 2352 \<Longrightarrow> length (ecc_generate L s True) = 2352"
  unfolding ecc_generate_True by (simp add: length_ecc_generate_False)

lemma length_edc_computeblock: "length (edc_computeblock L s src sz dest) = length s"
  by (simp add: edc_computeblock_def Let_def)

lemma take_edc_computeblock:
  "n \<le> dest \<Longrightarrow> take n (edc_computeblock L s src sz dest) = take n s"
  by (simp add: edc_computeblock_def Let_def)

lemma address_of_take:
  "take 0x81C a = take 0x81C b \<Longrightarrow> take 4 (drop 0xC a) = take 4 (drop 0xC b)"
proof -
  assume h: "take 0x81C a = take 0x81C b"
  have "take 4 (drop 0xC a) = take 4 (drop 0xC (take 0x81C a))" by (simp add: drop_take)
  also have "\<dots> = take 4 (drop 0xC (take 0x81C b))" by (simp only: h)
  also have "\<dots> = take 4 (drop 0xC b)" by (simp add: drop_take)
  finally show ?thesis .
qed

lemma take_eccedc_generate:
  assumes "length s = 2352"
  shows "take 0x810 (eccedc_generate L s type) = take 0x810 s"
proof -
  have t1: "take 0x810 (ecc_generate L x z) = take 0x810 x" if "length x = 2352" for x z
  proof -
    have "take 0x81C (ecc_generate L x z) = take 0x81C x"
      using that by (cases z) (simp_all add: take_ecc_generate_True take_ecc_generate_False)
    then have "take 0x810 (take 0x81C (ecc_generate L x z)) = take 0x810 (take 0x81C x)" by simp
    then show ?thesis by simp
  qed
  show ?thesis
    using assms
    by (simp add: eccedc_generate_def Let_def t1 length_edc_computeblock take_edc_computeblock upt_8)
qed

text \<open>Claim C9. On a 2352-byte sector, \<^verbatim>\<open>ecc_generate\<close> with address exclusion returns
  the four bytes at 0x0C to 0x0F as they were, and every byte below the parity area at
  0x81C with them; the parity bytes it writes are those of the sector with the four
  address bytes zero. Without address exclusion, and in every mode of
  \<^verbatim>\<open>eccedc_generate\<close>, the four bytes are unchanged as well.\<close>

theorem C9_address_restored:
  assumes "length s = 2352"
  shows "take 4 (drop 0xC (ecc_generate L s True)) = take 4 (drop 0xC s) \<and>
         take 0x81C (ecc_generate L s True) = take 0x81C s \<and>
         drop 0x81C (ecc_generate L s True) =
           drop 0x81C (ecc_generate L (s[0xC := 0, 0xD := 0, 0xE := 0, 0xF := 0]) False) \<and>
         take 4 (drop 0xC (ecc_generate L s False)) = take 4 (drop 0xC s) \<and>
         take 4 (drop 0xC (eccedc_generate L s type)) = take 4 (drop 0xC s)"
proof -
  have "take 16 (take 0x810 (eccedc_generate L s type)) = take 16 (take 0x810 s)"
    by (simp only: take_eccedc_generate [OF assms])
  then have "take 16 (eccedc_generate L s type) = take 16 s" by simp
  then have "drop 12 (take 16 (eccedc_generate L s type)) = drop 12 (take 16 s)" by simp
  then have e: "take 4 (drop 0xC (eccedc_generate L s type)) = take 4 (drop 0xC s)"
    by (simp add: drop_take)
  show ?thesis
    using e address_of_take [OF take_ecc_generate_True [OF assms]]
      address_of_take [OF take_ecc_generate_False [OF assms]]
      take_ecc_generate_True [OF assms] drop_ecc_generate_True
    by simp
qed

text \<open>Claim C9 on a sector of bytes 1, in Mode 2 Form 1.\<close>

theorem C9_address_restored_witness:
  "length (replicate 2352 (1 :: ecc_uint8)) = 2352 \<and>
   take 4 (drop 0xC (ecc_generate eccedc_init (replicate 2352 1) True)) =
     take 4 (drop 0xC (replicate 2352 1)) \<and>
   take 4 (drop 0xC (eccedc_generate eccedc_init (replicate 2352 1) 2)) =
     take 4 (drop 0xC (replicate 2352 1))"
proof -
  have h: "length (replicate 2352 (1 :: ecc_uint8)) = 2352" by simp
  show ?thesis
    using h C9_address_restored [OF h, of eccedc_init 2]
    by (intro conjI) (elim conjE, assumption)+
qed

section \<open>Sector reconstruction\<close>

lemma ucast_and_FF: "ucast (x AND 0xFF :: ecc_uint32) = (ucast x :: ecc_uint8)"
proof -
  have m: "(0xFF :: ecc_uint32) = mask 8" by (simp add: mask_eq_exp_minus_1)
  show ?thesis unfolding m by (rule bit_word_eqI) (simp add: bit_simps)
qed

lemma update4_append:
  assumes "dest + 4 \<le> length s"
  shows "s[dest + 0 := a, dest + 1 := b, dest + 2 := c, dest + 3 := d] =
         take dest s @ [a, b, c, d] @ drop (dest + 4) s"
proof (rule nth_equalityI)
  show "length (s[dest + 0 := a, dest + 1 := b, dest + 2 := c, dest + 3 := d]) =
        length (take dest s @ [a, b, c, d] @ drop (dest + 4) s)"
    using assms by simp
  fix i
  assume "i < length (s[dest + 0 := a, dest + 1 := b, dest + 2 := c, dest + 3 := d])"
  then have i: "i < length s" by simp
  consider "i < dest" | "i = dest" | "i = dest + 1" | "i = dest + 2" | "i = dest + 3"
    | "dest + 4 \<le> i" by linarith
  then show "s[dest + 0 := a, dest + 1 := b, dest + 2 := c, dest + 3 := d] ! i =
        (take dest s @ [a, b, c, d] @ drop (dest + 4) s) ! i"
  proof cases
    case 6
    then obtain j where j: "i = dest + 4 + j" using le_Suc_ex by blast
    show ?thesis using assms i unfolding j by (simp add: nth_append)
  qed (use assms i in \<open>simp_all add: nth_append\<close>)
qed

lemma edc_computeblock_append:
  assumes "dest + 4 \<le> length s"
  shows "edc_computeblock L s src sz dest =
         take dest s @ finalize (edc_partial_computeblock L 0 (drop src s) sz) @ drop (dest + 4) s"
  unfolding edc_computeblock_def Let_def
  by (subst update4_append [OF assms]) (simp add: finalize_def ucast_and_FF)

lemma edc_partial_cong:
  assumes "take n a = take n b" "n \<le> length a" "n \<le> length b" "n < 65536"
  shows "edc_partial_computeblock L e a (of_nat n) = edc_partial_computeblock L e b (of_nat n)"
  using assms by (simp add: edc_partial_fold)

lemma parity_walk_cong:
  assumes "\<forall>k < sz. b1 ! k = b2 ! k"
  shows "index < sz \<Longrightarrow>
         parity_walk L b1 sz inc n index (a, b) = parity_walk L b2 sz inc n index (a, b)"
proof (induction n arbitrary: index a b)
  case 0
  then show ?case by simp
next
  case (Suc n)
  then have "0 < sz" by simp
  then have "(index + inc) mod sz < sz" by simp
  then show ?case using Suc.IH assms Suc.prems by simp
qed

lemma parity_pair_cong:
  assumes "\<forall>k<mc * nc. b1 ! k = b2 ! k" "(major div 2) * stride + major mod 2 < mc * nc"
  shows "parity_pair L b1 mc nc stride inc major = parity_pair L b2 mc nc stride inc major"
proof -
  have "drop_bit 1 major * stride + (major AND 1) < mc * nc"
    using assms(2) by (simp add: drop_bit_eq_div and_one_eq)
  then show ?thesis
    unfolding parity_pair_def
    by (simp only: parity_walk_cong [OF assms(1)])
qed

lemma take_nth_eq: "take n a = take n b \<Longrightarrow> k < n \<Longrightarrow> a ! k = b ! k"
  by (metis nth_take)

lemma computeParity_cong_P:
  assumes "take 2064 b1 = take 2064 b2"
  shows "computeParity L b1 86 24 2 86 = computeParity L b2 86 24 2 86"
proof -
  have a: "\<forall>k<86 * 24. b1 ! k = b2 ! k" using take_nth_eq [OF assms] by simp
  have "parity_pair L b1 86 24 2 86 major = parity_pair L b2 86 24 2 86 major"
    if "major < 86" for major
    by (rule parity_pair_cong [OF a]) (use that in simp)
  then show ?thesis by (simp add: computeParity_def)
qed

lemma computeParity_cong_Q:
  assumes "take 2236 b1 = take 2236 b2"
  shows "computeParity L b1 52 43 86 88 = computeParity L b2 52 43 86 88"
proof -
  have a: "\<forall>k<52 * 43. b1 ! k = b2 ! k" using take_nth_eq [OF assms] by simp
  have "parity_pair L b1 52 43 86 88 major = parity_pair L b2 52 43 86 88 major"
    if "major < 52" for major
    by (rule parity_pair_cong [OF a]) (use that in \<open>simp; arith\<close>)
  then show ?thesis by (simp add: computeParity_def)
qed

lemma length_computeParity:
  "length (fst (computeParity L b mc nc stride inc)) = mc"
  "length (snd (computeParity L b mc nc stride inc)) = mc"
  by (simp_all add: computeParity_def)

lemma ecc_generate_False_parity:
  assumes "length s = 2352"
  shows "take 172 (drop 0x81C (ecc_generate L s False)) =
           fst (computeParity L (drop 0xC (ecc_generate L s False)) 86 24 2 86) @
           snd (computeParity L (drop 0xC (ecc_generate L s False)) 86 24 2 86)"
    and "drop 0x8C8 (ecc_generate L s False) =
           fst (computeParity L (drop 0xC (ecc_generate L s False)) 52 43 86 88) @
           snd (computeParity L (drop 0xC (ecc_generate L s False)) 52 43 86 88)"
proof -
  let ?p = "ecc_computeblock L s 0xC 86 24 2 86 0x81C"
  let ?S = "ecc_generate L s False"
  have lp: "length ?p = 2352" using assms by (rule length_computeblock_P)
  have S: "?S = take 0x8C8 ?p @ fst (computeParity L (drop 0xC ?p) 52 43 86 88) @
                  snd (computeParity L (drop 0xC ?p) 52 43 86 88)"
    unfolding ecc_generate_False by (rule computeblock_Q [OF lp])
  have p: "?p = take 0x81C s @ fst (computeParity L (drop 0xC s) 86 24 2 86) @
                  snd (computeParity L (drop 0xC s) 86 24 2 86) @ drop 0x8C8 s"
    by (rule computeblock_P [OF assms])
  have tS: "take 0x8C8 ?S = take 0x8C8 ?p" by (subst S) (simp add: lp)
  have tp: "take 0x81C ?p = take 0x81C s" by (subst p) (simp add: assms)
  have "take 2236 (drop 0xC ?S) = drop 0xC (take 0x8C8 ?S)" by (simp add: drop_take)
  also have "\<dots> = drop 0xC (take 0x8C8 ?p)" by (simp only: tS)
  also have "\<dots> = take 2236 (drop 0xC ?p)" by (simp add: drop_take)
  finally have q: "computeParity L (drop 0xC ?S) 52 43 86 88 = computeParity L (drop 0xC ?p) 52 43 86 88"
    by (rule computeParity_cong_Q)
  have "take 0x81C ?S = take 0x81C (take 0x8C8 ?S)" by simp
  also have "\<dots> = take 0x81C ?p" by (simp add: tS)
  also have "\<dots> = take 0x81C s" by (rule tp)
  finally have tS2: "take 0x81C ?S = take 0x81C s" .
  have "take 2064 (drop 0xC ?S) = drop 0xC (take 0x81C ?S)" by (simp add: drop_take)
  also have "\<dots> = drop 0xC (take 0x81C s)" by (simp only: tS2)
  also have "\<dots> = take 2064 (drop 0xC s)" by (simp add: drop_take)
  finally have pc: "computeParity L (drop 0xC ?S) 86 24 2 86 = computeParity L (drop 0xC s) 86 24 2 86"
    by (rule computeParity_cong_P)
  show "drop 0x8C8 ?S =
           fst (computeParity L (drop 0xC ?S) 52 43 86 88) @
           snd (computeParity L (drop 0xC ?S) 52 43 86 88)"
    unfolding q by (subst S) (simp add: lp)
  have "take 172 (drop 0x81C ?S) = drop 0x81C (take 0x8C8 ?S)" by (simp add: drop_take)
  also have "\<dots> = drop 0x81C (take 0x8C8 ?p)" by (simp only: tS)
  also have "\<dots> = fst (computeParity L (drop 0xC s) 86 24 2 86) @
                  snd (computeParity L (drop 0xC s) 86 24 2 86)"
    by (subst p) (simp add: assms length_computeParity)
  finally show "take 172 (drop 0x81C ?S) =
           fst (computeParity L (drop 0xC ?S) 86 24 2 86) @
           snd (computeParity L (drop 0xC ?S) 86 24 2 86)"
    unfolding pc .
qed

lemma sync_pattern_replicate: "sync_pattern = 0 # replicate 10 0xFF @ [0]"
  by (simp add: sync_pattern_def numeral_eq_Suc)

lemma memset_base:
  assumes "length sec = 2352"
  shows "memset (memset sec 0 0 2352) 1 0xFF 10 = sync_pattern @ replicate 2340 0"
proof -
  have "replicate 2341 (0 :: ecc_uint8) = replicate (1 + 2340) 0" by simp
  then have r: "replicate 2341 (0 :: ecc_uint8) = [0] @ replicate 2340 0"
    by (simp only: replicate_add) simp
  show ?thesis
    using assms by (simp add: memset_def sync_pattern_replicate r)
qed

lemma length_sync_pattern: "length sync_pattern = 12"
  by (simp add: sync_pattern_def)

lemma mode_byte:
  "(sync_pattern @ replicate 2340 0)[0x0F := m] = sync_pattern @ [0, 0, 0, m] @ replicate 2336 0"
proof -
  have "replicate 2340 (0 :: ecc_uint8) = replicate (3 + (1 + 2336)) 0" by simp
  then have r: "replicate 2340 (0 :: ecc_uint8) = [0, 0, 0] @ [0] @ replicate 2336 0"
    by (simp only: replicate_add) (simp add: numeral_3_eq_3)
  show ?thesis
    by (simp add: r list_update_append length_sync_pattern)
qed

lemma mode1_fill:
  assumes "length sec = 2352" "0x803 \<le> length i"
  shows "(let s1 = (memset (memset sec 0 0 2352) 1 0xFF 10)[0x0F := 1];
              s2 = take 0xC s1 @ take 3 i @ drop (0xC + 3) s1
          in take 0x10 s2 @ take 0x800 (drop 3 i) @ drop (0x10 + 0x800) s2) =
         sync_pattern @ take 3 i @ [1] @ take 2048 (drop 3 i) @ replicate 288 0"
proof -
  have b: "(memset (memset sec 0 0 2352) 1 0xFF 10)[0x0F := 1] =
           sync_pattern @ [0, 0, 0, 1] @ replicate 2336 0"
    by (simp only: memset_base [OF assms(1)] mode_byte)
  show ?thesis
    unfolding Let_def b using assms(2) by (simp add: length_sync_pattern)
qed

lemma memset_base_Suc:
  "length sec = 2352 \<Longrightarrow>
   memset (memset sec 0 0 2352) (Suc 0) 0xFF 10 = sync_pattern @ replicate 2340 0"
  using memset_base [of sec] by simp

lemma sector_step_1:
  assumes "length (sector st) = 2352" "0x803 \<le> length (inp st)"
  shows "sector_step L 1 st =
           Inr (st\<lparr>sector := mode1_sector L (inp st),
                  inp := drop 0x803 (inp st),
                  checkedc := edc_partial_computeblock L (checkedc st) (mode1_sector L (inp st)) 2352,
                  out := out st @ take 2352 (mode1_sector L (inp st))\<rparr>)"
  using assms
  by (simp add: sector_step_def Let_def fread_def fwrite_def memset_base_Suc mode_byte
      length_sync_pattern mode1_sector_def)

lemma replicate_update_same: "(replicate n x)[i := x] = replicate n x"
proof (rule nth_equalityI)
  show "length ((replicate n x)[i := x]) = length (replicate n x)" by simp
  fix k assume "k < length ((replicate n x)[i := x])"
  then have k: "k < n" by simp
  show "(replicate n x)[i := x] ! k = replicate n x ! k"
    using k by (cases "i = k") simp_all
qed

lemma mode1_generate:
  assumes "0x803 \<le> length i"
  shows "mode1_sector L i =
         ecc_generate L
           (sync_pattern @ take 3 i @ [1] @ take 2048 (drop 3 i) @
            finalize (edc_partial_computeblock L 0
               (sync_pattern @ take 3 i @ [1] @ take 2048 (drop 3 i) @ replicate 288 0) 0x810) @
            replicate 284 0) False"
proof -
  let ?S0 = "sync_pattern @ take 3 i @ [1] @ take 2048 (drop 3 i) @ replicate 288 0"
  have l: "length ?S0 = 2352" using assms by (simp add: length_sync_pattern)
  have r: "replicate 288 (0 :: ecc_uint8) = replicate (4 + 284) 0" by simp
  have e: "edc_computeblock L ?S0 0x00 0x810 0x810 =
           sync_pattern @ take 3 i @ [1] @ take 2048 (drop 3 i) @
            finalize (edc_partial_computeblock L 0 ?S0 0x810) @ replicate 284 0"
    using assms
    by (subst edc_computeblock_append) (simp_all add: length_sync_pattern)
  have z: "fold (\<lambda>k s. s[0x814 + k := 0]) [0..<8]
             (sync_pattern @ take 3 i @ [1] @ take 2048 (drop 3 i) @
              finalize (edc_partial_computeblock L 0 ?S0 0x810) @ replicate 284 0) =
           sync_pattern @ take 3 i @ [1] @ take 2048 (drop 3 i) @
              finalize (edc_partial_computeblock L 0 ?S0 0x810) @ replicate 284 0"
    using assms
    by (simp add: upt_8 list_update_append length_sync_pattern finalize_def replicate_update_same)
  show ?thesis
    unfolding mode1_sector_def eccedc_generate_def Let_def
    by (simp only: e z) simp
qed

lemma slice_of_take:
  assumes "take n a = take n b" "j + k \<le> n"
  shows "take k (drop j a) = take k (drop j b)"
proof -
  have "take (j + k) (take n a) = take (j + k) (take n b)" by (simp only: assms(1))
  then have "take (j + k) a = take (j + k) b" using assms(2) by (simp add: min_def)
  then have "drop j (take (j + k) a) = drop j (take (j + k) b)" by simp
  then show ?thesis by (simp add: drop_take)
qed

text \<open>Claim C1. One Mode 1 repetition with at least 0x803 bytes of input left reads 3 address
  bytes and 2048 data bytes, and emits a 2352-byte sector \<open>S\<close> with: the sync pattern in
  bytes 0x000 to 0x00B, the address bytes at 0x00C to 0x00E, 0x01 at 0x00F, the data at
  0x010 to 0x80F, the little-endian checksum of bytes 0x000 to 0x80F at 0x810, zeros at
  0x814 to 0x81B, the P parity at 0x81C and the Q parity at 0x8C8, both computed over \<open>S\<close>
  from offset 0x00C with the address bytes in place. The running checksum is continued
  over all 2352 bytes of \<open>S\<close>. Both checksums are stated with the reference function
  \<^const>\<open>accumulate\<close> over the checksum table.\<close>

theorem C1_mode1_sector:
  assumes "length (sector st) = 2352" "0x803 \<le> length (inp st)"
  shows "\<exists>S. sector_step L 1 st =
               Inr (st\<lparr>sector := S, inp := drop 0x803 (inp st),
                      checkedc := accumulate (edc_lut L) (checkedc st) S,
                      out := out st @ S\<rparr>) \<and>
             length S = 2352 \<and>
             take 12 S = [0x00, 0xFF, 0xFF, 0xFF, 0xFF, 0xFF, 0xFF, 0xFF, 0xFF, 0xFF, 0xFF, 0x00] \<and>
             S ! 0x00F = 0x01 \<and>
             take 3 (drop 0x00C S) = take 3 (inp st) \<and>
             take 0x800 (drop 0x010 S) = take 0x800 (drop 3 (inp st)) \<and>
             take 4 (drop 0x810 S) = finalize (accumulate (edc_lut L) 0 (take 0x810 S)) \<and>
             take 8 (drop 0x814 S) = replicate 8 0 \<and>
             take 172 (drop 0x81C S) =
               fst (computeParity L (drop 0x00C S) 86 24 2 86) @
               snd (computeParity L (drop 0x00C S) 86 24 2 86) \<and>
             drop 0x8C8 S =
               fst (computeParity L (drop 0x00C S) 52 43 86 88) @
               snd (computeParity L (drop 0x00C S) 52 43 86 88)"
proof -
  define i where "i = inp st"
  define S0 where "S0 = sync_pattern @ take 3 i @ [1] @ take 2048 (drop 3 i) @ replicate 288 0"
  define e where "e = edc_partial_computeblock L 0 S0 0x810"
  define s1 where "s1 = sync_pattern @ take 3 i @ [1] @ take 2048 (drop 3 i) @ finalize e @ replicate 284 0"
  define S where "S = mode1_sector L i"
  have il: "0x803 \<le> length i" using assms(2) by (simp add: i_def)
  have S: "S = ecc_generate L s1 False"
    unfolding S_def s1_def e_def S0_def by (rule mode1_generate [OF il])
  have l0: "length S0 = 2352" using il by (simp add: S0_def length_sync_pattern)
  have l1: "length s1 = 2352" using il by (simp add: s1_def length_sync_pattern finalize_def)
  have lS: "length S = 2352" unfolding S by (rule length_ecc_generate_False [OF l1])
  have t: "take 0x81C S = take 0x81C s1" unfolding S by (rule take_ecc_generate_False [OF l1])
  have t0: "take 0x810 S = take 0x810 S0"
  proof -
    have "take 0x810 (take 0x81C S) = take 0x810 (take 0x81C s1)" by (simp only: t)
    then have "take 0x810 S = take 0x810 s1" by simp
    also have "\<dots> = take 0x810 S0" using il by (simp add: s1_def S0_def length_sync_pattern)
    finally show ?thesis .
  qed
  have "e = edc_partial_computeblock L 0 S 0x810"
    unfolding e_def using edc_partial_cong [of 2064 S0 S L 0] t0 l0 lS by simp
  also have "\<dots> = accumulate (edc_lut L) 0 (take 0x810 S)"
    using edc_partial_accumulate [of 2064 S L 0] lS by simp
  finally have eS: "e = accumulate (edc_lut L) 0 (take 0x810 S)" .
  have acc: "edc_partial_computeblock L (checkedc st) S 2352 =
             accumulate (edc_lut L) (checkedc st) S"
    using edc_partial_accumulate [of 2352 S L "checkedc st"] lS by simp
  have step: "sector_step L 1 st =
               Inr (st\<lparr>sector := S, inp := drop 0x803 (inp st),
                      checkedc := accumulate (edc_lut L) (checkedc st) S,
                      out := out st @ S\<rparr>)"
    using sector_step_1 [OF assms, of L] lS acc by (simp add: S_def i_def)
  have p1: "take 12 S = sync_pattern"
    using slice_of_take [OF t, of 0 12] il by (simp add: s1_def length_sync_pattern)
  have p2: "S ! 0x00F = 0x01"
    using take_nth_eq [OF t, of 15] il by (simp add: s1_def nth_append length_sync_pattern)
  have p3: "take 3 (drop 0x00C S) = take 3 i"
    using slice_of_take [OF t, of 12 3] il by (simp add: s1_def length_sync_pattern)
  have p4: "take 0x800 (drop 0x010 S) = take 0x800 (drop 3 i)"
    using slice_of_take [OF t, of 16 2048] il by (simp add: s1_def length_sync_pattern)
  have p5: "take 4 (drop 0x810 S) = finalize e"
    using slice_of_take [OF t, of 2064 4] il by (simp add: s1_def length_sync_pattern finalize_def)
  have p6: "take 8 (drop 0x814 S) = replicate 8 0"
    using slice_of_take [OF t, of 2068 8] il by (simp add: s1_def length_sync_pattern finalize_def)
  note p7 = ecc_generate_False_parity [OF l1, of L, folded S]
  show ?thesis
    using step lS p1 p2 p3 p4 p5 p6 p7
    by (intro exI [of _ S]) (simp add: eS i_def sync_pattern_def)
qed

text \<open>Claim C1 on an input of 0x803 bytes 7, with the tables of \<^verbatim>\<open>eccedc_init\<close>.\<close>

theorem C1_mode1_sector_witness:
  "length (sector \<lparr>inp = replicate 0x803 7, out = [], checkedc = 0, sector = replicate 2352 0\<rparr>)
     = 2352 \<and>
   0x803 \<le> length (inp \<lparr>inp = replicate 0x803 7, out = [], checkedc = 0,
                          sector = replicate 2352 0\<rparr>) \<and>
   (\<exists>S. sector_step eccedc_init 1
            \<lparr>inp = replicate 0x803 7, out = [], checkedc = 0, sector = replicate 2352 0\<rparr> =
          Inr \<lparr>inp = [], out = S,
               checkedc = accumulate (edc_lut eccedc_init) 0 S, sector = S\<rparr> \<and>
        length S = 2352 \<and>
        take 4 (drop 0x810 S) = finalize (accumulate (edc_lut eccedc_init) 0 (take 0x810 S)))"
proof -
  let ?st = "\<lparr>inp = replicate 0x803 7, out = [], checkedc = 0, sector = replicate 2352 0\<rparr>"
  have h1: "length (sector ?st) = 2352" by simp
  have h2: "0x803 \<le> length (inp ?st)" by simp
  obtain S where S: "sector_step eccedc_init 1 ?st =
               Inr (?st\<lparr>sector := S, inp := drop 0x803 (inp ?st),
                      checkedc := accumulate (edc_lut eccedc_init) (checkedc ?st) S,
                      out := out ?st @ S\<rparr>)"
      "length S = 2352"
      "take 4 (drop 0x810 S) = finalize (accumulate (edc_lut eccedc_init) 0 (take 0x810 S))"
    using C1_mode1_sector [OF h1 h2, of eccedc_init] by blast
  have "sector_step eccedc_init 1 ?st =
          Inr \<lparr>inp = [], out = S,
               checkedc = accumulate (edc_lut eccedc_init) 0 S, sector = S\<rparr>"
    unfolding S(1) by simp
  then show ?thesis using h1 h2 S(2,3) by blast
qed

lemma replicate_2336: "replicate 2336 (0 :: ecc_uint8) = [0, 0, 0, 0] @ replicate 2332 0"
proof -
  have "replicate 2336 (0 :: ecc_uint8) = replicate (4 + 2332) 0" by simp
  then show ?thesis by (simp only: replicate_add) (simp add: numeral_eq_Suc)
qed

lemma nth_4_take: "4 \<le> length i \<Longrightarrow> [i ! 0, i ! 1, i ! 2, i ! 3] = take 4 i"
  by (rule nth_equalityI) (auto simp: nth_Cons' less_Suc_eq numeral_eq_Suc)

lemma mirror_subheader_eq:
  assumes "24 \<le> length s"
  shows "mirror_subheader s = take 16 s @ take 4 (drop 20 s) @ drop 20 s"
proof -
  have "mirror_subheader s = s[16 + 0 := s ! 20, 16 + 1 := s ! 21, 16 + 2 := s ! 22, 16 + 3 := s ! 23]"
    by (simp add: mirror_subheader_def Let_def)
  also have "\<dots> = take 16 s @ [s ! 20, s ! 21, s ! 22, s ! 23] @ drop (16 + 4) s"
    using assms by (intro update4_append) simp
  also have "[s ! 20, s ! 21, s ! 22, s ! 23] = take 4 (drop 20 s)"
    using assms nth_4_take [of "drop 20 s"] by simp
  finally show ?thesis by simp
qed

lemma sector_step_3:
  assumes "length (sector st) = 2352" "0x918 \<le> length (inp st)"
  shows "sector_step L 3 st =
           Inr (st\<lparr>sector := eccedc_generate L (mode2_fill (inp st) 0x918) 3,
                  inp := drop 0x918 (inp st),
                  checkedc := edc_partial_computeblock L (checkedc st)
                     (drop 0x10 (eccedc_generate L (mode2_fill (inp st) 0x918) 3)) 2336,
                  out := out st @ take 2336 (drop 0x10 (eccedc_generate L (mode2_fill (inp st) 0x918) 3))\<rparr>)"
  using assms
  by (simp add: sector_step_def Let_def fread_def fwrite_def memset_base_Suc mode_byte
      length_sync_pattern mode2_fill_def mirror_subheader_eq)

lemma sector_step_2:
  assumes "length (sector st) = 2352" "0x804 \<le> length (inp st)"
  shows "sector_step L 2 st =
           Inr (st\<lparr>sector := eccedc_generate L (mode2_fill (inp st) 0x804) 2,
                  inp := drop 0x804 (inp st),
                  checkedc := edc_partial_computeblock L (checkedc st)
                     (drop 0x10 (eccedc_generate L (mode2_fill (inp st) 0x804) 2)) 2336,
                  out := out st @ take 2336 (drop 0x10 (eccedc_generate L (mode2_fill (inp st) 0x804) 2))\<rparr>)"
  using assms
  by (simp add: sector_step_def Let_def fread_def fwrite_def memset_base_Suc mode_byte
      length_sync_pattern mode2_fill_def mirror_subheader_eq)

lemma length_mode2_fill: "n \<le> length i \<Longrightarrow> 4 \<le> n \<Longrightarrow> n \<le> 2332 \<Longrightarrow> length (mode2_fill i n) = 2352"
  by (simp add: mode2_fill_def length_sync_pattern)

text \<open>Claim C8. One Mode 2 Form 2 repetition with at least 0x918 = 2328 bytes of input left
  reads exactly these 2328 bytes to offset 0x14: the 4-byte subheader and the 2324 bytes
  that follow it. It holds the subheader at 0x10 and at 0x14, writes the little-endian
  checksum of bytes 0x10 to 0x92B at 0x92C, and writes no parity: \<^verbatim>\<open>eccedc_generate\<close>
  for type 3 changes the last four bytes only, and every byte from 0x14 to 0x92B of the
  sector is input. It emits the 2336 bytes from offset 0x10 and continues the running
  checksum over them. Both checksums are stated with the reference function
  \<^const>\<open>accumulate\<close> over the checksum table. A Mode 2 Form 1 repetition on the same state
  puts the same eight bytes at 0x10 to 0x17.\<close>

theorem C8_mode2_form2_sector:
  assumes "length (sector st) = 2352" "0x918 \<le> length (inp st)"
  shows "\<exists>S S1.
           sector_step L 3 st =
             Inr (st\<lparr>sector := S, inp := drop 0x918 (inp st),
                    checkedc := accumulate (edc_lut L) (checkedc st) (drop 0x10 S),
                    out := out st @ drop 0x10 S\<rparr>) \<and>
           length S = 2352 \<and> length (drop 0x10 S) = 2336 \<and>
           take 4 (drop 0x10 S) = take 4 (inp st) \<and>
           take 4 (drop 0x14 S) = take 4 (inp st) \<and>
           take 0x918 (drop 0x14 S) = take 0x918 (inp st) \<and>
           take 0x914 (drop 0x18 S) = take 0x914 (drop 4 (inp st)) \<and>
           drop 0x92C S = finalize (accumulate (edc_lut L) 0 (take 0x91C (drop 0x10 S))) \<and>
           eccedc_generate L (sector st) 3 =
             take 0x92C (sector st) @
             finalize (accumulate (edc_lut L) 0 (take 0x91C (drop 0x10 (sector st)))) \<and>
           sector_step L 2 st =
             Inr (st\<lparr>sector := S1, inp := drop 0x804 (inp st),
                    checkedc := accumulate (edc_lut L) (checkedc st) (drop 0x10 S1),
                    out := out st @ drop 0x10 S1\<rparr>) \<and>
           take 8 (drop 0x10 S1) = take 8 (drop 0x10 S)"
proof -
  define i where "i = inp st"
  define F where "F = mode2_fill i 0x918"
  define S where "S = eccedc_generate L F 3"
  define S1 where "S1 = eccedc_generate L (mode2_fill i 0x804) 2"
  define e where "e = edc_partial_computeblock L 0 (drop 0x10 F) 0x91C"
  have il: "0x918 \<le> length i" using assms(2) by (simp add: i_def)
  have lF: "length F = 2352" unfolding F_def using il by (intro length_mode2_fill) simp_all
  have lF1: "length (mode2_fill i 0x804) = 2352" using il by (intro length_mode2_fill) simp_all
  have S: "S = take 0x92C F @ finalize e"
    unfolding S_def e_def eccedc_generate_def
    using lF by (simp add: edc_computeblock_append)
  have lS: "length S = 2352" unfolding S using lF by (simp add: finalize_def)
  have t: "take 0x92C S = take 0x92C F" unfolding S using lF by simp
  have "e = edc_partial_computeblock L 0 (drop 0x10 S) 0x91C"
    unfolding e_def
    using edc_partial_cong [of 2332 "drop 0x10 F" "drop 0x10 S" L 0]
      slice_of_take [OF t, of 16 2332] lF lS by simp
  also have "\<dots> = accumulate (edc_lut L) 0 (take 0x91C (drop 0x10 S))"
    using edc_partial_accumulate [of 2332 "drop 0x10 S" L 0] lS by simp
  finally have eS: "e = accumulate (edc_lut L) 0 (take 0x91C (drop 0x10 S))" .
  have acc: "edc_partial_computeblock L c (drop 0x10 x) 2336 =
             accumulate (edc_lut L) c (drop 0x10 x)" if "length x = 2352" for c x
    using edc_partial_accumulate [of 2336 "drop 0x10 x" L c] that by simp
  have step: "sector_step L 3 st =
             Inr (st\<lparr>sector := S, inp := drop 0x918 (inp st),
                    checkedc := accumulate (edc_lut L) (checkedc st) (drop 0x10 S),
                    out := out st @ drop 0x10 S\<rparr>)"
    using sector_step_3 [OF assms, of L] lS acc [OF lS] by (simp add: S_def F_def i_def)
  have p2': "take 0x914 (drop 0x18 S) = take 0x914 (drop 4 i)"
    using slice_of_take [OF t, of 24 2324] il
    by (simp add: F_def mode2_fill_def length_sync_pattern drop_take)
  have p1: "take 4 (drop 0x10 S) = take 4 i"
    using slice_of_take [OF t, of 16 4] il by (simp add: F_def mode2_fill_def length_sync_pattern)
  have p2: "take 0x918 (drop 0x14 S) = take 0x918 i"
    using slice_of_take [OF t, of 20 2328] il by (simp add: F_def mode2_fill_def length_sync_pattern)
  have "take 4 (take 0x918 (drop 0x14 S)) = take 4 (take 0x918 i)" by (simp only: p2)
  then have p3: "take 4 (drop 0x14 S) = take 4 i" by simp
  have p4: "drop 0x92C S = finalize e" unfolding S using lF by simp
  have p5: "take 8 (drop 0x10 S) = take 4 i @ take 4 i"
    using slice_of_take [OF t, of 16 8] il by (simp add: F_def mode2_fill_def length_sync_pattern)
  have lS1: "length S1 = 2352"
    unfolding S1_def eccedc_generate_def
    using lF1 by (simp add: length_ecc_generate_True length_edc_computeblock)
  have t1: "take 0x810 S1 = take 0x810 (mode2_fill i 0x804)"
    unfolding S1_def by (rule take_eccedc_generate [OF lF1])
  have p6: "take 8 (drop 0x10 S1) = take 4 i @ take 4 i"
    using slice_of_take [OF t1, of 16 8] il by (simp add: mode2_fill_def length_sync_pattern)
  have il1: "0x804 \<le> length (inp st)" using assms(2) by simp
  have step1: "sector_step L 2 st =
             Inr (st\<lparr>sector := S1, inp := drop 0x804 (inp st),
                    checkedc := accumulate (edc_lut L) (checkedc st) (drop 0x10 S1),
                    out := out st @ drop 0x10 S1\<rparr>)"
    using sector_step_2 [OF assms(1) il1, of L] lS1 acc [OF lS1] by (simp add: S1_def i_def)
  have "eccedc_generate L (sector st) 3 =
          take 0x92C (sector st) @
          finalize (edc_partial_computeblock L 0 (drop 0x10 (sector st)) 0x91C)"
    using assms(1) by (simp add: eccedc_generate_def edc_computeblock_append)
  also have "edc_partial_computeblock L 0 (drop 0x10 (sector st)) 0x91C =
          accumulate (edc_lut L) 0 (take 0x91C (drop 0x10 (sector st)))"
    using edc_partial_accumulate [of 2332 "drop 0x10 (sector st)" L 0] assms(1) by simp
  finally have g: "eccedc_generate L (sector st) 3 =
          take 0x92C (sector st) @
          finalize (accumulate (edc_lut L) 0 (take 0x91C (drop 0x10 (sector st))))" .
  show ?thesis
    using step lS p1 p2 p2' p3 p4 p5 p6 step1 g
    by (intro exI [of _ S] exI [of _ S1]) (simp add: eS i_def)
qed

text \<open>Claim C8 on an input of 0x918 bytes 7, with the tables of \<^verbatim>\<open>eccedc_init\<close>.\<close>

theorem C8_mode2_form2_sector_witness:
  "length (sector \<lparr>inp = replicate 0x918 7, out = [], checkedc = 0, sector = replicate 2352 0\<rparr>)
     = 2352 \<and>
   0x918 \<le> length (inp \<lparr>inp = replicate 0x918 7, out = [], checkedc = 0,
                          sector = replicate 2352 0\<rparr>) \<and>
   (\<exists>S. sector_step eccedc_init 3
            \<lparr>inp = replicate 0x918 7, out = [], checkedc = 0, sector = replicate 2352 0\<rparr> =
          Inr \<lparr>inp = [], out = drop 0x10 S,
               checkedc = accumulate (edc_lut eccedc_init) 0 (drop 0x10 S),
               sector = S\<rparr> \<and>
        length (drop 0x10 S) = 2336 \<and>
        take 4 (drop 0x10 S) = [7, 7, 7, 7] \<and>
        drop 0x92C S = finalize (accumulate (edc_lut eccedc_init) 0 (take 0x91C (drop 0x10 S))))"
proof -
  let ?st = "\<lparr>inp = replicate 0x918 7, out = [], checkedc = 0, sector = replicate 2352 0\<rparr>"
  have h1: "length (sector ?st) = 2352" by simp
  have h2: "0x918 \<le> length (inp ?st)" by simp
  obtain S where S: "sector_step eccedc_init 3 ?st =
             Inr (?st\<lparr>sector := S, inp := drop 0x918 (inp ?st),
                    checkedc := accumulate (edc_lut eccedc_init) (checkedc ?st) (drop 0x10 S),
                    out := out ?st @ drop 0x10 S\<rparr>)"
      "length (drop 0x10 S) = 2336"
      "take 4 (drop 0x10 S) = take 4 (inp ?st)"
      "drop 0x92C S = finalize (accumulate (edc_lut eccedc_init) 0 (take 0x91C (drop 0x10 S)))"
    using C8_mode2_form2_sector [OF h1 h2, of eccedc_init] by blast
  have a: "sector_step eccedc_init 3 ?st =
          Inr \<lparr>inp = [], out = drop 0x10 S,
               checkedc = accumulate (edc_lut eccedc_init) 0 (drop 0x10 S),
               sector = S\<rparr>"
    unfolding S(1) by simp
  have b: "take 4 (drop 0x10 S) = [7, 7, 7, 7]"
    unfolding S(3) by (simp add: numeral_eq_Suc)
  show ?thesis using h1 h2 a b S(2,4) by blast
qed

section \<open>The chunk header\<close>

lemma top_bit_test: "(c AND 0x80 \<noteq> 0) = bit (c :: ecc_uint8) 7"
  by (rule u8_all [where P = "\<lambda>c. (c AND 0x80 \<noteq> 0) = bit c 7"])
     (simp add: atLeastLessThan_nat_numeral)

lemma low7_word: "(ucast (c AND 0x7F :: ecc_uint8) :: off_t) = of_nat (take_bit 7 (unat c))"
  by (rule u8_all [where P = "\<lambda>c. (ucast (c AND 0x7F :: ecc_uint8) :: off_t) = of_nat (take_bit 7 (unat c))"])
     (simp add: atLeastLessThan_nat_numeral)

lemma first5_word:
  "(ucast (drop_bit 2 c AND 0x1F :: ecc_uint8) :: off_t) = of_nat (take_bit 5 (drop_bit 2 (unat c)))"
  by (rule u8_all [where P = "\<lambda>c. (ucast (drop_bit 2 c AND 0x1F :: ecc_uint8) :: off_t) =
        of_nat (take_bit 5 (drop_bit 2 (unat c)))"])
     (simp add: atLeastLessThan_nat_numeral)

lemma read_count_chain:
  "cont_chain c cs \<Longrightarrow> unat bits + 7 * length cs < 71 \<Longrightarrow>
   read_count (cs @ rest) c num bits = Inr (num OR of_nat (spec_count_bits (unat bits) cs), rest)"
proof (induction cs arbitrary: c num bits)
  case Nil
  then show ?case by (subst read_count.simps) (simp add: top_bit_test)
next
  case (Cons d ds)
  have lt: "unat bits < 64" using Cons.prems(2) by simp
  have ub: "unat (bits + 7) = unat bits + 7"
    using lt by (simp add: unat_word_ariths)
  have "read_count ((d # ds) @ rest) c num bits =
        read_count (ds @ rest) d (num OR push_bit (unat bits) (ucast (d AND 0x7F))) (bits + 7)"
    using Cons.prems(1) lt by (subst read_count.simps) (simp add: top_bit_test)
  also have "\<dots> = Inr ((num OR push_bit (unat bits) (ucast (d AND 0x7F))) OR
                       of_nat (spec_count_bits (unat (bits + 7)) ds), rest)"
    using Cons.prems by (intro Cons.IH) (simp_all add: ub)
  also have "(num OR push_bit (unat bits) (ucast (d AND 0x7F))) OR
                       of_nat (spec_count_bits (unat (bits + 7)) ds) =
             num OR of_nat (spec_count_bits (unat bits) (d # ds))"
    by (simp add: ub low7_word of_nat_or_eq push_bit_of_nat or.assoc)
  finally show ?case .
qed

lemma word_of_nat_mod64: "(of_nat (n mod 2 ^ 64) :: off_t) = of_nat n"
  by (simp add: word_of_nat_eq_iff take_bit_eq_mod)

lemma unat_of_nat_raw64: "unat (of_nat (spec_raw_count64 c0 cs) :: off_t) = spec_raw_count64 c0 cs"
  by (simp add: spec_raw_count64_def unat_of_nat)

lemma chunk_header_chain:
  assumes "chunk_header_bytes input c0 cs rest"
  shows "chunk_header input =
           Inr (ucast (c0 AND 3), of_nat (spec_raw_count64 c0 cs), rest)"
proof -
  from assms have i: "input = c0 # cs @ rest" and c: "cont_chain c0 cs" and l: "length cs \<le> 9"
    by (simp_all add: chunk_header_bytes_def)
  have e: "(of_nat (spec_raw_count64 c0 cs) :: off_t) = of_nat (spec_raw_count c0 cs)"
    unfolding spec_raw_count64_def by (rule word_of_nat_mod64)
  have "unat (5 :: ecc_uint32) + 7 * length cs < 71" using l by simp
  from read_count_chain [OF c this]
  show ?thesis
    unfolding e
    by (simp add: i chunk_header_def spec_raw_count_def first5_word of_nat_or_eq)
qed

lemma type_word: "(ucast (c AND 3 :: ecc_uint8) :: ecc_uint32) = of_nat (spec_type c)"
  unfolding spec_type_def
  by (rule u8_all [where P = "\<lambda>c. (ucast (c AND 3 :: ecc_uint8) :: ecc_uint32) = of_nat (unat c mod 4)"])
     (simp add: atLeastLessThan_nat_numeral)

lemma raw64_sentinel:
  "((of_nat (spec_raw_count64 c0 cs) :: off_t) = 0xFFFFFFFF) = (spec_raw_count64 c0 cs = 0xFFFFFFFF)"
proof
  assume "(of_nat (spec_raw_count64 c0 cs) :: off_t) = 0xFFFFFFFF"
  then have "unat (of_nat (spec_raw_count64 c0 cs) :: off_t) = unat (0xFFFFFFFF :: off_t)" by simp
  then show "spec_raw_count64 c0 cs = 0xFFFFFFFF" by (simp add: unat_of_nat_raw64)
next
  assume "spec_raw_count64 c0 cs = 0xFFFFFFFF"
  then show "(of_nat (spec_raw_count64 c0 cs) :: off_t) = 0xFFFFFFFF" by simp
qed

lemma raw64_succ:
  assumes "spec_raw_count64 c0 cs + 1 < 2 ^ 64"
  shows "unat ((of_nat (spec_raw_count64 c0 cs) :: off_t) + 1) = spec_raw_count64 c0 cs + 1"
proof -
  have "(of_nat (spec_raw_count64 c0 cs) :: off_t) + 1 = of_nat (spec_raw_count64 c0 cs + 1)"
    by simp
  then show ?thesis using assms by (simp only: unat_of_nat) simp
qed

text \<open>The chunk loop on an input that starts with a header of at most nine continuation
  bytes, in terms of the reference count.\<close>

lemma unecmify_loop_header:
  assumes "chunk_header_bytes (inp st) c0 cs rest"
  shows "unecmify_loop L st =
     (if (of_nat (spec_raw_count64 c0 cs) :: off_t) = 0xFFFFFFFF then Some (Inr (st\<lparr>inp := rest\<rparr>))
      else if (0x8000000000000000 :: off_t) \<le> of_nat (spec_raw_count64 c0 cs) + 1
        then Some (Inl InvalidChunkLength)
      else (case chunk_body L (of_nat (spec_type c0)) (st\<lparr>inp := rest\<rparr>)
                   (of_nat (spec_raw_count64 c0 cs) + 1) of
              None \<Rightarrow> None
            | Some (Inl e) \<Rightarrow> Some (Inl e)
            | Some (Inr st') \<Rightarrow> unecmify_loop L st'))"
  by (subst unecmify_loop.simps) (simp add: chunk_header_chain [OF assms] type_word)

lemma loop_sentinel:
  assumes "chunk_header_bytes (inp st) c0 cs rest" "spec_raw_count64 c0 cs = 0xFFFFFFFF"
  shows "unecmify_loop L st = Some (Inr (st\<lparr>inp := rest\<rparr>))"
  unfolding unecmify_loop_header [OF assms(1)] raw64_sentinel using assms(2) by simp

lemma loop_invalid:
  assumes "chunk_header_bytes (inp st) c0 cs rest" "spec_raw_count64 c0 cs \<noteq> 0xFFFFFFFF"
    "2 ^ 63 \<le> spec_raw_count64 c0 cs + 1" "spec_raw_count64 c0 cs + 1 < 2 ^ 64"
  shows "unecmify_loop L st = Some (Inl InvalidChunkLength)"
proof -
  have "(0x8000000000000000 :: off_t) \<le> of_nat (spec_raw_count64 c0 cs) + 1"
    unfolding word_le_nat_alt raw64_succ [OF assms(4)] using assms(3) by simp
  then show ?thesis
    unfolding unecmify_loop_header [OF assms(1)] raw64_sentinel using assms(2) by simp
qed

lemma loop_dispatch:
  assumes "chunk_header_bytes (inp st) c0 cs rest" "spec_raw_count64 c0 cs \<noteq> 0xFFFFFFFF"
    "spec_raw_count64 c0 cs + 1 < 2 ^ 63"
  shows "unecmify_loop L st =
     (case chunk_body L (of_nat (spec_type c0)) (st\<lparr>inp := rest\<rparr>)
                   (of_nat (spec_raw_count64 c0 cs + 1)) of
              None \<Rightarrow> None
            | Some (Inl e) \<Rightarrow> Some (Inl e)
            | Some (Inr st') \<Rightarrow> unecmify_loop L st')"
proof -
  have lt: "spec_raw_count64 c0 cs + 1 < 2 ^ 64" using assms(3) by simp
  have "\<not> (0x8000000000000000 :: off_t) \<le> of_nat (spec_raw_count64 c0 cs) + 1"
    unfolding word_le_nat_alt raw64_succ [OF lt] using assms(3) by simp
  then show ?thesis
    unfolding unecmify_loop_header [OF assms(1)] raw64_sentinel using assms(2)
    by (simp add: add.commute)
qed

lemma loop_byte0:
  "unecmify_loop L (st\<lparr>inp := 0x00 # rest\<rparr>) =
     (case literal_loop L (st\<lparr>inp := rest\<rparr>) 1 of
        None \<Rightarrow> None
      | Some (Inl e) \<Rightarrow> Some (Inl e)
      | Some (Inr st') \<Rightarrow> unecmify_loop L st')"
  by (subst unecmify_loop.simps)
     (simp add: chunk_header_def read_count.simps chunk_body_def word_le_nat_alt)

text \<open>Reference counts of some headers. The bytes FC FF FF FF 3F are the sentinel; the
  bytes FC FF FF FF BF 80 80 80 80 08 carry the same low 32 bits and one more bit at
  offset 64.\<close>

lemma raw_sentinel: "spec_raw_count 0xFC [0xFF, 0xFF, 0xFF, 0x3F] = 0xFFFFFFFF"
  by (simp add: spec_raw_count_def)

lemma raw_beyond:
  "spec_raw_count 0xFC [0xFF, 0xFF, 0xFF, 0xBF, 0x80, 0x80, 0x80, 0x80, 0x08] = 2 ^ 64 + 0xFFFFFFFF"
  by (simp add: spec_raw_count_def)

lemma raw_max:
  "spec_raw_count 0xFC [0xFF, 0xFF, 0xFF, 0xFF, 0xFF, 0xFF, 0xFF, 0xFF, 0x03] = 2 ^ 63 - 1"
  by (simp add: spec_raw_count_def)

lemma raw_all_ones:
  "spec_raw_count 0xFC [0xFF, 0xFF, 0xFF, 0xFF, 0xFF, 0xFF, 0xFF, 0xFF, 0x07] = 2 ^ 64 - 1"
  by (simp add: spec_raw_count_def)

lemma raw_two_bytes: "spec_raw_count 0x85 [0x01] = 33"
  by (simp add: spec_raw_count_def)

lemma raw_mode1: "spec_raw_count 0x05 [] = 1"
  by (simp add: spec_raw_count_def)

lemma decode_beyond:
  "unecmify L ([0x45, 0x43, 0x4D, 0x00] @
        [0xFC, 0xFF, 0xFF, 0xFF, 0xBF, 0x80, 0x80, 0x80, 0x80, 0x08] @ [0, 0, 0, 0]) =
     Some (Inr \<lparr>inp = [], out = [], checkedc = 0, sector = [0, 0, 0, 0] @ replicate 2348 0\<rparr>)"
  by (simp add: unecmify_def magic_ok_def unecmify_loop.simps chunk_header_def read_count.simps
        unecmify_trailer_def fread_def)

lemma decode_all_ones:
  "unecmify L ([0x45, 0x43, 0x4D, 0x00] @
        [0xFC, 0xFF, 0xFF, 0xFF, 0xFF, 0xFF, 0xFF, 0xFF, 0xFF, 0x07] @
        [0xFC, 0xFF, 0xFF, 0xFF, 0x3F] @ [0, 0, 0, 0]) =
     Some (Inr \<lparr>inp = [], out = [], checkedc = 0, sector = [0, 0, 0, 0] @ replicate 2348 0\<rparr>)"
  by (simp add: unecmify_def magic_ok_def unecmify_loop.simps chunk_header_def read_count.simps
        unecmify_trailer_def fread_def chunk_body_def literal_loop.simps word_le_nat_alt)

text \<open>Claim C2 as stated fails on counts that do not fit the 64-bit \<^verbatim>\<open>off_t\<close>. By the
  bit-offset rule the header FC FF FF FF BF 80 80 80 80 08 has the raw count
  \<open>2^64 + 0xFFFFFFFF\<close>, which is not the sentinel and whose increment is above \<open>2^63\<close>; the
  program loses the bit at offset 64, takes the header as the sentinel, and the stream
  made of the magic, this header and the trailer 00 00 00 00 decodes without error. The
  header FC FF FF FF FF FF FF FF FF 07 has the raw count \<open>2^64 - 1\<close>, whose increment
  \<open>2^64\<close> is above \<open>2^63\<close>; the program increments it to 0 and takes it as an empty literal
  chunk, and the stream with this header before the sentinel decodes without error.
  Neither fails with \<open>InvalidChunkLength\<close>.\<close>

theorem C2_count_beyond_64_bits:
  "cont_chain 0xFC [0xFF, 0xFF, 0xFF, 0xBF, 0x80, 0x80, 0x80, 0x80, 0x08] \<and>
   spec_raw_count 0xFC [0xFF, 0xFF, 0xFF, 0xBF, 0x80, 0x80, 0x80, 0x80, 0x08] = 2 ^ 64 + 0xFFFFFFFF \<and>
   unecmify eccedc_init ([0x45, 0x43, 0x4D, 0x00] @
        [0xFC, 0xFF, 0xFF, 0xFF, 0xBF, 0x80, 0x80, 0x80, 0x80, 0x08] @ [0, 0, 0, 0]) =
     Some (Inr \<lparr>inp = [], out = [], checkedc = 0, sector = [0, 0, 0, 0] @ replicate 2348 0\<rparr>) \<and>
   cont_chain 0xFC [0xFF, 0xFF, 0xFF, 0xFF, 0xFF, 0xFF, 0xFF, 0xFF, 0x07] \<and>
   spec_raw_count 0xFC [0xFF, 0xFF, 0xFF, 0xFF, 0xFF, 0xFF, 0xFF, 0xFF, 0x07] = 2 ^ 64 - 1 \<and>
   unecmify eccedc_init ([0x45, 0x43, 0x4D, 0x00] @
        [0xFC, 0xFF, 0xFF, 0xFF, 0xFF, 0xFF, 0xFF, 0xFF, 0xFF, 0x07] @
        [0xFC, 0xFF, 0xFF, 0xFF, 0x3F] @ [0, 0, 0, 0]) =
     Some (Inr \<lparr>inp = [], out = [], checkedc = 0, sector = [0, 0, 0, 0] @ replicate 2348 0\<rparr>)"
proof -
  have a: "cont_chain 0xFC [0xFF, 0xFF, 0xFF, 0xBF, 0x80, 0x80, 0x80, 0x80, 0x08]" by simp
  have b: "cont_chain 0xFC [0xFF, 0xFF, 0xFF, 0xFF, 0xFF, 0xFF, 0xFF, 0xFF, 0x07]" by simp
  show ?thesis
    by (intro conjI a b raw_beyond raw_all_ones decode_beyond decode_all_ones)
qed

text \<open>Claim C2, amended. The count is the 64-bit \<^verbatim>\<open>off_t\<close>: the raw count of the
  bit-offset rule taken modulo \<open>2^64\<close>, for a header of at most nine continuation bytes
  (bit offsets 5 to 61). The first byte gives the type in its low 2 bits and the low 5
  bits of the count in its bits 2 to 6; each continuation byte gives its low 7 bits at
  offsets 5, 12, 19, ...; decoding stops at the first byte with the top bit clear, and
  the rest of the input follows. The header byte 00 is a literal chunk of true count 1.
  A 64-bit raw count of 0xFFFFFFFF ends the chunk loop with no increment and no dispatch.
  For any other 64-bit raw count \<open>r\<close>: if \<open>2^63 \<le> r + 1 < 2^64\<close> the decode fails with
  \<open>InvalidChunkLength\<close>, and if \<open>r + 1 < 2^63\<close> the chunk body runs with the type and the
  count \<open>r + 1\<close>. Nothing is said of \<open>r = 2^64 - 1\<close>, nor of a header with ten or more
  continuation bytes.\<close>

theorem C2_chunk_header:
  "(chunk_header_bytes input c0 cs rest \<longrightarrow>
      chunk_header input = Inr (of_nat (spec_type c0), of_nat (spec_raw_count64 c0 cs), rest)) \<and>
   spec_type 0x00 = 0 \<and> spec_raw_count64 0x00 [] = 0 \<and>
   unecmify_loop L (st0\<lparr>inp := 0x00 # rest0\<rparr>) =
     (case literal_loop L (st0\<lparr>inp := rest0\<rparr>) 1 of
        None \<Rightarrow> None
      | Some (Inl e) \<Rightarrow> Some (Inl e)
      | Some (Inr st') \<Rightarrow> unecmify_loop L st') \<and>
   (chunk_header_bytes (inp st1) c1 cs1 rest1 \<and> spec_raw_count64 c1 cs1 = 0xFFFFFFFF \<longrightarrow>
      unecmify_loop L st1 = Some (Inr (st1\<lparr>inp := rest1\<rparr>))) \<and>
   (chunk_header_bytes (inp st2) c2 cs2 rest2 \<and> spec_raw_count64 c2 cs2 \<noteq> 0xFFFFFFFF \<and>
    2 ^ 63 \<le> spec_raw_count64 c2 cs2 + 1 \<and> spec_raw_count64 c2 cs2 + 1 < 2 ^ 64 \<longrightarrow>
      unecmify_loop L st2 = Some (Inl InvalidChunkLength)) \<and>
   (chunk_header_bytes (inp st3) c3 cs3 rest3 \<and> spec_raw_count64 c3 cs3 \<noteq> 0xFFFFFFFF \<and>
    spec_raw_count64 c3 cs3 + 1 < 2 ^ 63 \<longrightarrow>
      unecmify_loop L st3 =
        (case chunk_body L (of_nat (spec_type c3)) (st3\<lparr>inp := rest3\<rparr>)
                (of_nat (spec_raw_count64 c3 cs3 + 1)) of
           None \<Rightarrow> None
         | Some (Inl e) \<Rightarrow> Some (Inl e)
         | Some (Inr st') \<Rightarrow> unecmify_loop L st'))"
proof (intro conjI impI)
  assume "chunk_header_bytes input c0 cs rest"
  then show "chunk_header input = Inr (of_nat (spec_type c0), of_nat (spec_raw_count64 c0 cs), rest)"
    by (simp add: chunk_header_chain type_word)
next
  show "spec_type 0x00 = 0" by (simp add: spec_type_def)
next
  show "spec_raw_count64 0x00 [] = 0" by (simp add: spec_raw_count64_def spec_raw_count_def)
next
  show "unecmify_loop L (st0\<lparr>inp := 0x00 # rest0\<rparr>) =
     (case literal_loop L (st0\<lparr>inp := rest0\<rparr>) 1 of
        None \<Rightarrow> None
      | Some (Inl e) \<Rightarrow> Some (Inl e)
      | Some (Inr st') \<Rightarrow> unecmify_loop L st')"
    by (rule loop_byte0)
next
  assume "chunk_header_bytes (inp st1) c1 cs1 rest1 \<and> spec_raw_count64 c1 cs1 = 0xFFFFFFFF"
  then show "unecmify_loop L st1 = Some (Inr (st1\<lparr>inp := rest1\<rparr>))"
    using loop_sentinel [of st1 c1 cs1 rest1 L] by (elim conjE) simp
next
  assume "chunk_header_bytes (inp st2) c2 cs2 rest2 \<and> spec_raw_count64 c2 cs2 \<noteq> 0xFFFFFFFF \<and>
    2 ^ 63 \<le> spec_raw_count64 c2 cs2 + 1 \<and> spec_raw_count64 c2 cs2 + 1 < 2 ^ 64"
  then have h: "chunk_header_bytes (inp st2) c2 cs2 rest2" "spec_raw_count64 c2 cs2 \<noteq> 0xFFFFFFFF"
    "2 ^ 63 \<le> spec_raw_count64 c2 cs2 + 1" "spec_raw_count64 c2 cs2 + 1 < 2 ^ 64"
    by simp_all
  show "unecmify_loop L st2 = Some (Inl InvalidChunkLength)"
    by (rule loop_invalid [OF h])
next
  assume "chunk_header_bytes (inp st3) c3 cs3 rest3 \<and> spec_raw_count64 c3 cs3 \<noteq> 0xFFFFFFFF \<and>
    spec_raw_count64 c3 cs3 + 1 < 2 ^ 63"
  then have h: "chunk_header_bytes (inp st3) c3 cs3 rest3" "spec_raw_count64 c3 cs3 \<noteq> 0xFFFFFFFF"
    "spec_raw_count64 c3 cs3 + 1 < 2 ^ 63"
    by simp_all
  show "unecmify_loop L st3 =
        (case chunk_body L (of_nat (spec_type c3)) (st3\<lparr>inp := rest3\<rparr>)
                (of_nat (spec_raw_count64 c3 cs3 + 1)) of
           None \<Rightarrow> None
         | Some (Inl e) \<Rightarrow> Some (Inl e)
         | Some (Inr st') \<Rightarrow> unecmify_loop L st')"
    by (rule loop_dispatch [OF h])
qed

text \<open>Claim C2, amended, with the tables of \<^verbatim>\<open>eccedc_init\<close>, in the state that the
  decoder is in after one literal byte 07: the two-byte header 85 01 (type 1, raw count
  33) before the byte 09; the sentinel FC FF FF FF 3F before the bytes 01 02; the header
  FC FF FF FF FF FF FF FF FF 03 of raw count \<open>2^63 - 1\<close>; and the Mode 1 header 05 of raw
  count 1.\<close>

theorem C2_chunk_header_witness:
  "(chunk_header_bytes [0x85, 0x01, 0x09] 0x85 [0x01] [0x09] \<and>
    chunk_header [0x85, 0x01, 0x09] =
      Inr (of_nat (spec_type 0x85), of_nat (spec_raw_count64 0x85 [0x01]), [0x09]) \<and>
    spec_type 0x85 = 1 \<and> spec_raw_count64 0x85 [0x01] = 33) \<and>
   (chunk_header_bytes [0xFC, 0xFF, 0xFF, 0xFF, 0x3F, 0x01, 0x02] 0xFC [0xFF, 0xFF, 0xFF, 0x3F] [0x01, 0x02] \<and>
    spec_raw_count64 0xFC [0xFF, 0xFF, 0xFF, 0x3F] = 0xFFFFFFFF \<and>
    unecmify_loop eccedc_init
      \<lparr>inp = [0xFC, 0xFF, 0xFF, 0xFF, 0x3F, 0x01, 0x02], out = [0x07],
        checkedc = accumulate (edc_lut eccedc_init) 0 [0x07], sector = 0x07 # replicate 2351 0\<rparr> =
      Some (Inr \<lparr>inp = [0x01, 0x02], out = [0x07],
                 checkedc = accumulate (edc_lut eccedc_init) 0 [0x07],
                 sector = 0x07 # replicate 2351 0\<rparr>)) \<and>
   (chunk_header_bytes [0xFC, 0xFF, 0xFF, 0xFF, 0xFF, 0xFF, 0xFF, 0xFF, 0xFF, 0x03] 0xFC
       [0xFF, 0xFF, 0xFF, 0xFF, 0xFF, 0xFF, 0xFF, 0xFF, 0x03] [] \<and>
    spec_raw_count64 0xFC [0xFF, 0xFF, 0xFF, 0xFF, 0xFF, 0xFF, 0xFF, 0xFF, 0x03] = 2 ^ 63 - 1 \<and>
    unecmify_loop eccedc_init
      \<lparr>inp = [0xFC, 0xFF, 0xFF, 0xFF, 0xFF, 0xFF, 0xFF, 0xFF, 0xFF, 0x03], out = [0x07],
        checkedc = accumulate (edc_lut eccedc_init) 0 [0x07], sector = 0x07 # replicate 2351 0\<rparr> =
      Some (Inl InvalidChunkLength)) \<and>
   (chunk_header_bytes [0x05] 0x05 [] [] \<and> spec_type 0x05 = 1 \<and> spec_raw_count64 0x05 [] = 1 \<and>
    unecmify_loop eccedc_init
      \<lparr>inp = [0x05], out = [0x07], checkedc = accumulate (edc_lut eccedc_init) 0 [0x07],
        sector = 0x07 # replicate 2351 0\<rparr> =
      (case chunk_body eccedc_init 1
              \<lparr>inp = [], out = [0x07], checkedc = accumulate (edc_lut eccedc_init) 0 [0x07],
                sector = 0x07 # replicate 2351 0\<rparr> 2 of
         None \<Rightarrow> None
       | Some (Inl e) \<Rightarrow> Some (Inl e)
       | Some (Inr st') \<Rightarrow> unecmify_loop eccedc_init st'))"
proof -
  let ?s = "\<lambda>i. \<lparr>inp = i, out = [0x07], checkedc = accumulate (edc_lut eccedc_init) 0 [0x07],
                 sector = 0x07 # replicate 2351 (0 :: ecc_uint8)\<rparr>"
  let ?sent = "[0xFC, 0xFF, 0xFF, 0xFF, 0x3F, 0x01, 0x02] :: ecc_uint8 list"
  let ?max = "[0xFC, 0xFF, 0xFF, 0xFF, 0xFF, 0xFF, 0xFF, 0xFF, 0xFF, 0x03] :: ecc_uint8 list"
  note T = C2_chunk_header [where L = eccedc_init
      and input = "[0x85, 0x01, 0x09]" and ?c0.0 = "0x85" and cs = "[0x01]" and rest = "[0x09]"
      and ?st1.0 = "?s ?sent" and ?c1.0 = "0xFC" and ?cs1.0 = "[0xFF, 0xFF, 0xFF, 0x3F]"
      and ?rest1.0 = "[0x01, 0x02]"
      and ?st2.0 = "?s ?max" and ?c2.0 = "0xFC" and ?cs2.0 = "tl ?max" and ?rest2.0 = "[]"
      and ?st3.0 = "?s [0x05]" and ?c3.0 = "0x05" and ?cs3.0 = "[]" and ?rest3.0 = "[]"]
  have r1: "spec_type 0x85 = 1" by (simp add: spec_type_def)
  have r2: "spec_raw_count64 0x85 [0x01] = 33" by (simp add: spec_raw_count64_def raw_two_bytes)
  have r3: "spec_raw_count64 0xFC [0xFF, 0xFF, 0xFF, 0x3F] = 0xFFFFFFFF"
    by (simp add: spec_raw_count64_def raw_sentinel)
  have r4: "spec_raw_count64 0xFC [0xFF, 0xFF, 0xFF, 0xFF, 0xFF, 0xFF, 0xFF, 0xFF, 0x03] = 2 ^ 63 - 1"
    by (simp add: spec_raw_count64_def raw_max)
  have r5: "spec_type 0x05 = 1" by (simp add: spec_type_def)
  have r6: "spec_raw_count64 0x05 [] = 1" by (simp add: spec_raw_count64_def raw_mode1)
  have h0: "chunk_header_bytes [0x85, 0x01, 0x09] 0x85 [0x01] [0x09]"
    by (simp add: chunk_header_bytes_def)
  have h1: "chunk_header_bytes ?sent 0xFC [0xFF, 0xFF, 0xFF, 0x3F] [0x01, 0x02]"
    by (simp add: chunk_header_bytes_def)
  have h2: "chunk_header_bytes ?max 0xFC (tl ?max) []"
    by (simp add: chunk_header_bytes_def)
  have h3: "chunk_header_bytes [0x05] 0x05 [] []"
    by (simp add: chunk_header_bytes_def)
  have c0: "chunk_header [0x85, 0x01, 0x09] =
      Inr (of_nat (spec_type 0x85), of_nat (spec_raw_count64 0x85 [0x01]), [0x09])"
    using T h0 by simp
  have c1: "unecmify_loop eccedc_init (?s ?sent) = Some (Inr (?s [0x01, 0x02]))"
    using T h1 r3 by simp
  have c2: "unecmify_loop eccedc_init (?s ?max) = Some (Inl InvalidChunkLength)"
    using T h2 r4 by simp
  have c3: "unecmify_loop eccedc_init (?s [0x05]) =
      (case chunk_body eccedc_init 1 (?s []) 2 of
         None \<Rightarrow> None
       | Some (Inl e) \<Rightarrow> Some (Inl e)
       | Some (Inr st') \<Rightarrow> unecmify_loop eccedc_init st')"
    using T h3 r5 r6 by simp
  show ?thesis
    using h0 c0 r1 r2 h1 r3 c1 h2 r4 c2 h3 r5 r6 c3 by simp
qed

section \<open>The trailer\<close>

text \<open>The comparison of lines 327 to 333 is the comparison of the four bytes read with
  the little-endian bytes of the running checksum.\<close>
lemma ucast_ucast_FF: "(ucast (ucast (x :: ecc_uint32) :: ecc_uint8) :: ecc_uint32) = x AND 0xFF"
proof -
  have m: "(0xFF :: ecc_uint32) = mask 8" by (simp add: mask_eq_exp_minus_1)
  show ?thesis unfolding m by (rule bit_word_eqI) (auto simp: bit_simps)
qed

lemma byte_compare: "(ucast (b :: ecc_uint8) = (x :: ecc_uint32) AND 0xFF) = (b = ucast x)"
proof
  assume "ucast b = x AND 0xFF"
  then have "(ucast (ucast b :: ecc_uint32) :: ecc_uint8) = ucast (x AND 0xFF)" by simp
  then show "b = ucast x" by (simp add: ucast_8_32_8 ucast_and_FF)
next
  assume "b = ucast x"
  then show "ucast b = x AND 0xFF" by (simp add: ucast_ucast_FF)
qed

lemma list4_eq:
  assumes "length t = 4"
  shows "(t = [a, b, c, d]) = (t ! 0 = a \<and> t ! 1 = b \<and> t ! 2 = c \<and> t ! 3 = d)"
proof -
  obtain w x y z where t: "t = [w, x, y, z]"
    using assms by (auto simp: length_Suc_conv numeral_eq_Suc)
  show ?thesis by (simp add: t)
qed

lemma unecmify_trailer_eq:
  "unecmify_trailer st =
     (if length (inp st) < 4 then Inl UnexpectedEndOfStream
      else if take 4 (inp st) = finalize (checkedc st)
           then Inr (st\<lparr>sector := take 4 (inp st) @ drop 4 (sector st), inp := drop 4 (inp st)\<rparr>)
           else Inl ChecksumMismatch)"
proof (cases "length (inp st) < 4")
  case True
  then show ?thesis by (simp add: unecmify_trailer_def fread_def)
next
  case False
  then have l: "length (take 4 (inp st)) = 4" by simp
  have n: "(take 4 (inp st) @ drop 4 (sector st)) ! k = take 4 (inp st) ! k" if "k < 4" for k
    using that l by (simp add: nth_append)
  show ?thesis
    using False
    by (simp add: unecmify_trailer_def fread_def finalize_def list4_eq [OF l] byte_compare n
        del: take_eq_Nil)
qed

text \<open>What a successful run has read does not depend on what follows: with another rest
  of the input, it reads the same bytes and ends in the same state.\<close>

lemma fread_local:
  assumes "fread st off n = Inr st'"
  shows "inp st = take n (inp st) @ inp st'"
    and "fread (st\<lparr>inp := take n (inp st) @ x\<rparr>) off n = Inr (st'\<lparr>inp := x\<rparr>)"
proof -
  from assms have l: "n \<le> length (inp st)"
    by (auto simp: fread_def split: if_splits)
  from assms l have e: "st' = st\<lparr>sector := take off (sector st) @ take n (inp st) @
                                  drop (off + n) (sector st), inp := drop n (inp st)\<rparr>"
    by (simp add: fread_def)
  show "inp st = take n (inp st) @ inp st'" by (simp add: e)
  show "fread (st\<lparr>inp := take n (inp st) @ x\<rparr>) off n = Inr (st'\<lparr>inp := x\<rparr>)"
    using l by (simp add: fread_def e)
qed

lemma sector_step_local_1:
  assumes "sector_step L 1 st = Inr st'"
  shows "\<exists>p. inp st = p @ inp st' \<and>
             (\<forall>x. sector_step L 1 (st\<lparr>inp := p @ x\<rparr>) = Inr (st'\<lparr>inp := x\<rparr>))"
proof -
  define B where "B s = s\<lparr>sector := (memset (memset (sector s) 0 0 2352) 1 0xFF 10)[0x0F := 1]\<rparr>"
    for s :: dec_state
  define G where "G s3 = (let st4 = s3\<lparr>sector := eccedc_generate L (sector s3) 1\<rparr>;
                st5 = st4\<lparr>checkedc := edc_partial_computeblock L (checkedc st4) (sector st4) 2352\<rparr>
            in fwrite st5 (take 2352 (sector st5)))" for s3 :: dec_state
  have alt: "sector_step L 1 s =
      (case fread (B s) 0xC 3 of Inl e \<Rightarrow> Inl e
       | Inr s2 \<Rightarrow> (case fread s2 0x10 0x800 of Inl e \<Rightarrow> Inl e | Inr s3 \<Rightarrow> Inr (G s3)))" for s
    by (simp add: sector_step_def Let_def B_def G_def split: sum.splits)
  have Bc: "B (s\<lparr>inp := y\<rparr>) = (B s)\<lparr>inp := y\<rparr>" "inp (B s) = inp s" for s y
    by (simp_all add: B_def)
  have Gc: "G (s\<lparr>inp := y\<rparr>) = (G s)\<lparr>inp := y\<rparr>" "inp (G s) = inp s" for s y
    by (simp_all add: G_def Let_def fwrite_def)
  from assms obtain s2 s3 where f1: "fread (B st) 0xC 3 = Inr s2"
    and f2: "fread s2 0x10 0x800 = Inr s3" and e: "st' = G s3"
    by (auto simp: alt split: sum.splits)
  let ?p = "take 3 (inp (B st)) @ take 0x800 (inp s2)"
  have a: "inp st = ?p @ inp st'"
    using fread_local(1) [OF f1] fread_local(1) [OF f2] by (simp add: e Gc Bc)
  have b: "sector_step L 1 (st\<lparr>inp := ?p @ x\<rparr>) = Inr (st'\<lparr>inp := x\<rparr>)" for x
    using fread_local(2) [OF f1, of "take 0x800 (inp s2) @ x"] fread_local(2) [OF f2, of x]
    by (simp add: alt Bc e Gc)
  show ?thesis using a b by blast
qed

lemma sector_step_local_23:
  assumes "sector_step L type st = Inr st'" "type = 2 \<or> type = 3"
  shows "\<exists>p. inp st = p @ inp st' \<and>
             (\<forall>x. sector_step L type (st\<lparr>inp := p @ x\<rparr>) = Inr (st'\<lparr>inp := x\<rparr>))"
proof -
  define n :: nat where "n = (if type = 2 then 0x804 else 0x918)"
  define t :: int where "t = (if type = 2 then 2 else 3)"
  define B where "B s = s\<lparr>sector := (memset (memset (sector s) 0 0 2352) 1 0xFF 10)[0x0F := 2]\<rparr>"
    for s :: dec_state
  define G where "G st2 = (let s4 = mirror_subheader (sector st2);
                st3 = st2\<lparr>sector := eccedc_generate L s4 t\<rparr>;
                st4 = st3\<lparr>checkedc :=
                        edc_partial_computeblock L (checkedc st3) (drop 0x10 (sector st3)) 2336\<rparr>
            in fwrite st4 (take 2336 (drop 0x10 (sector st4))))" for st2 :: dec_state
  have alt: "sector_step L type s =
      (case fread (B s) 0x14 n of Inl e \<Rightarrow> Inl e | Inr s2 \<Rightarrow> Inr (G s2))" for s
    using assms(2) by (auto simp: sector_step_def Let_def B_def G_def n_def t_def split: sum.splits)
  have Bc: "B (s\<lparr>inp := y\<rparr>) = (B s)\<lparr>inp := y\<rparr>" "inp (B s) = inp s" for s y
    by (simp_all add: B_def)
  have Gc: "G (s\<lparr>inp := y\<rparr>) = (G s)\<lparr>inp := y\<rparr>" "inp (G s) = inp s" for s y
    by (simp_all add: G_def Let_def fwrite_def)
  from assms(1) obtain s2 where f1: "fread (B st) 0x14 n = Inr s2" and e: "st' = G s2"
    by (auto simp: alt split: sum.splits)
  let ?p = "take n (inp (B st))"
  have a: "inp st = ?p @ inp st'"
    using fread_local(1) [OF f1] by (simp add: e Gc Bc)
  have b: "sector_step L type (st\<lparr>inp := ?p @ x\<rparr>) = Inr (st'\<lparr>inp := x\<rparr>)" for x
    using fread_local(2) [OF f1, of x] by (simp add: alt Bc e Gc)
  show ?thesis using a b by blast
qed

lemma sector_step_local:
  assumes "sector_step L type st = Inr st'"
  shows "\<exists>p. inp st = p @ inp st' \<and>
             (\<forall>x. sector_step L type (st\<lparr>inp := p @ x\<rparr>) = Inr (st'\<lparr>inp := x\<rparr>))"
proof -
  consider "type = 1" | "type = 2 \<or> type = 3" | "type \<noteq> 1" "type \<noteq> 2" "type \<noteq> 3" by blast
  then show ?thesis
  proof cases
    case 1
    then show ?thesis using assms sector_step_local_1 by blast
  next
    case 2
    then show ?thesis using assms sector_step_local_23 by blast
  next
    case 3
    then show ?thesis
      using assms
      by (intro exI [of _ "[]"]) (auto simp: sector_step_def Let_def)
  qed
qed


lemma sector_loop_local:
  "sector_loop L type st num = Inr st' \<Longrightarrow>
   \<exists>p. inp st = p @ inp st' \<and>
       (\<forall>x. sector_loop L type (st\<lparr>inp := p @ x\<rparr>) num = Inr (st'\<lparr>inp := x\<rparr>))"
proof (induction L type st num arbitrary: st' rule: sector_loop.induct)
  case (1 L type st num)
  show ?case
  proof (cases "num = 0")
    case True
    then have "st' = st" using "1.prems" by (simp add: sector_loop.simps)
    then show ?thesis
      using True by (intro exI [of _ "[]"]) (simp add: sector_loop.simps)
  next
    case False
    from "1.prems" False obtain st1 where s: "sector_step L type st = Inr st1"
      and r: "sector_loop L type st1 (num - 1) = Inr st'"
      by (subst (asm) sector_loop.simps) (auto split: sum.splits)
    from sector_step_local [OF s] obtain p1 where p1: "inp st = p1 @ inp st1"
      "\<And>x. sector_step L type (st\<lparr>inp := p1 @ x\<rparr>) = Inr (st1\<lparr>inp := x\<rparr>)" by blast
    from "1.IH" [OF False s r] obtain p2 where p2: "inp st1 = p2 @ inp st'"
      "\<And>x. sector_loop L type (st1\<lparr>inp := p2 @ x\<rparr>) (num - 1) = Inr (st'\<lparr>inp := x\<rparr>)" by blast
    have a: "inp st = (p1 @ p2) @ inp st'" using p1(1) p2(1) by simp
    have b: "sector_loop L type (st\<lparr>inp := (p1 @ p2) @ x\<rparr>) num = Inr (st'\<lparr>inp := x\<rparr>)" for x
      using False p1(2) [of "p2 @ x"] p2(2) [of x]
      by (subst sector_loop.simps) simp
    show ?thesis using a b by blast
  qed
qed

lemma literal_loop_local:
  "literal_loop L st num = Some (Inr st') \<Longrightarrow>
   \<exists>p. inp st = p @ inp st' \<and>
       (\<forall>x. literal_loop L (st\<lparr>inp := p @ x\<rparr>) num = Some (Inr (st'\<lparr>inp := x\<rparr>)))"
proof -
  define P where "P L st num y \<longleftrightarrow> (\<forall>st'. y = Inr st' \<longrightarrow>
      (\<exists>p. inp st = p @ inp st' \<and>
       (\<forall>x. literal_loop L (st\<lparr>inp := p @ x\<rparr>) num = Some (Inr (st'\<lparr>inp := x\<rparr>)))))"
    for L st num and y :: "error + dec_state"
  have "P L st num y" if "literal_loop L st num = Some y" for y
  proof (rule literal_loop.raw_induct [where P = P, OF _ that], goal_cases)
    case (1 f L st num y)
    note IH = 1(1) and body = 1(2)
    show ?case
    proof (cases "num = 0")
      case True
      then have "y = Inr st" using body by simp
      then show ?thesis
        unfolding P_def using True
        by (auto intro!: exI [of _ "[]"] simp: literal_loop.simps)
    next
      case False
      define b :: ecc_uint16 where "b = (if 2352 < sint num then 2352 else ucast num)"
      define K where "K s1 = fwrite (s1\<lparr>checkedc := edc_partial_computeblock L (checkedc s1) (sector s1) b\<rparr>)
                     (take (unat b) (sector s1))" for s1 :: dec_state
      have Kc: "K (s\<lparr>inp := z\<rparr>) = (K s)\<lparr>inp := z\<rparr>" "inp (K s) = inp s" for s z
        by (simp_all add: K_def fwrite_def)
      have unf: "literal_loop L s num =
          (case fread s 0 (unat b) of Inl e \<Rightarrow> Some (Inl e)
           | Inr s1 \<Rightarrow> literal_loop L (K s1) (num - ucast b))" for s
        apply (subst literal_loop.simps)
        unfolding Let_def b_def [symmetric] K_def [symmetric]
        using False by simp
      show ?thesis
        unfolding P_def
      proof (intro allI impI)
        fix st' assume y: "y = Inr st'"
        from body False y obtain st1 where f1: "fread st 0 (unat b) = Inr st1"
          and r: "f L (K st1) (num - ucast b) = Some (Inr st')"
          by (auto simp: b_def K_def Let_def split: sum.splits)
        from IH [OF r] obtain p2 where p2: "inp (K st1) = p2 @ inp st'"
          "\<And>x. literal_loop L ((K st1)\<lparr>inp := p2 @ x\<rparr>) (num - ucast b) = Some (Inr (st'\<lparr>inp := x\<rparr>))"
          unfolding P_def by blast
        let ?p1 = "take (unat b) (inp st)"
        have a: "inp st = (?p1 @ p2) @ inp st'"
          using fread_local(1) [OF f1] p2(1) by (simp add: Kc)
        have c: "literal_loop L (st\<lparr>inp := (?p1 @ p2) @ x\<rparr>) num = Some (Inr (st'\<lparr>inp := x\<rparr>))" for x
          using fread_local(2) [OF f1, of "p2 @ x"] p2(2) [of x]
          by (simp add: unf Kc)
        show "\<exists>p. inp st = p @ inp st' \<and>
           (\<forall>x. literal_loop L (st\<lparr>inp := p @ x\<rparr>) num = Some (Inr (st'\<lparr>inp := x\<rparr>)))"
          using a c by blast
      qed
    qed
  qed
  then show "literal_loop L st num = Some (Inr st') \<Longrightarrow>
   \<exists>p. inp st = p @ inp st' \<and>
       (\<forall>x. literal_loop L (st\<lparr>inp := p @ x\<rparr>) num = Some (Inr (st'\<lparr>inp := x\<rparr>)))"
    unfolding P_def by blast
qed

lemma chunk_body_local:
  "chunk_body L type st num = Some (Inr st') \<Longrightarrow>
   \<exists>p. inp st = p @ inp st' \<and>
       (\<forall>x. chunk_body L type (st\<lparr>inp := p @ x\<rparr>) num = Some (Inr (st'\<lparr>inp := x\<rparr>)))"
  using literal_loop_local [of L st num st'] sector_loop_local [of L type st num st']
  by (auto simp: chunk_body_def split: if_splits)


lemma read_count_local:
  "read_count input c num bits = Inr (n, rest) \<Longrightarrow>
   \<exists>p. input = p @ rest \<and> (\<forall>x. read_count (p @ x) c num bits = Inr (n, x))"
proof (induction input c num bits rule: read_count.induct)
  case (1 input c num bits)
  show ?case
  proof (cases "c AND 0x80 \<noteq> 0")
    case False
    then have "rest = input" "n = num" using "1.prems" by (simp_all add: read_count.simps)
    then show ?thesis
      using False by (intro exI [of _ "[]"]) (simp add: read_count.simps)
  next
    case True
    from "1.prems" True obtain d ds where i: "input = d # ds"
      and lt: "\<not> 64 \<le> unat bits"
      and r: "read_count ds d (num OR push_bit (unat bits) (ucast (d AND 0x7F))) (bits + 7) = Inr (n, rest)"
      by (subst (asm) read_count.simps) (auto split: list.splits if_splits)
    from "1.IH" [OF True i lt r] obtain p where p: "ds = p @ rest"
      "\<And>x. read_count (p @ x) d (num OR push_bit (unat bits) (ucast (d AND 0x7F))) (bits + 7) = Inr (n, x)"
      by blast
    have a: "input = (d # p) @ rest" using i p(1) by simp
    have b: "read_count ((d # p) @ x) c num bits = Inr (n, x)" for x
      using True lt p(2) [of x] by (subst read_count.simps) simp
    show ?thesis using a b by blast
  qed
qed

lemma chunk_header_local:
  assumes "chunk_header input = Inr (t, n, rest)"
  shows "\<exists>p. input = p @ rest \<and> (\<forall>x. chunk_header (p @ x) = Inr (t, n, x))"
proof -
  from assms obtain c cs where i: "input = c # cs"
    and r: "read_count cs c (ucast (drop_bit 2 c AND 0x1F)) 5 = Inr (n, rest)"
    and t: "t = ucast (c AND 3)"
    by (auto simp: chunk_header_def split: list.splits sum.splits)
  from read_count_local [OF r] obtain p where p: "cs = p @ rest"
    "\<And>x. read_count (p @ x) c (ucast (drop_bit 2 c AND 0x1F)) 5 = Inr (n, x)" by blast
  have a: "input = (c # p) @ rest" using i p(1) by simp
  have b: "chunk_header ((c # p) @ x) = Inr (t, n, x)" for x
    using p(2) [of x] by (simp add: chunk_header_def t)
  show ?thesis using a b by blast
qed

lemma unecmify_loop_local:
  "unecmify_loop L st = Some (Inr st') \<Longrightarrow>
   \<exists>p. inp st = p @ inp st' \<and>
       (\<forall>x. unecmify_loop L (st\<lparr>inp := p @ x\<rparr>) = Some (Inr (st'\<lparr>inp := x\<rparr>)))"
proof -
  define P where "P L st y \<longleftrightarrow> (\<forall>st'. y = Inr st' \<longrightarrow>
      (\<exists>p. inp st = p @ inp st' \<and>
       (\<forall>x. unecmify_loop L (st\<lparr>inp := p @ x\<rparr>) = Some (Inr (st'\<lparr>inp := x\<rparr>)))))"
    for L st and y :: "error + dec_state"
  have "P L st y" if "unecmify_loop L st = Some y" for y
  proof (rule unecmify_loop.raw_induct [where P = P, OF _ that], goal_cases)
    case (1 f L st y)
    note IH = 1(1) and body = 1(2)
    show ?case
      unfolding P_def
    proof (intro allI impI)
      fix st' assume y: "y = Inr st'"
      from body y obtain type num rest where h: "chunk_header (inp st) = Inr (type, num, rest)"
        by (auto split: sum.splits)
      from chunk_header_local [OF h] obtain p0 where p0: "inp st = p0 @ rest"
        "\<And>x. chunk_header (p0 @ x) = Inr (type, num, x)" by blast
      show "\<exists>p. inp st = p @ inp st' \<and>
           (\<forall>x. unecmify_loop L (st\<lparr>inp := p @ x\<rparr>) = Some (Inr (st'\<lparr>inp := x\<rparr>)))"
      proof (cases "num = 0xFFFFFFFF")
        case True
        then have e: "st' = st\<lparr>inp := rest\<rparr>" using body y h by simp
        have "unecmify_loop L (st\<lparr>inp := p0 @ x\<rparr>) = Some (Inr (st'\<lparr>inp := x\<rparr>))" for x
          using True p0(2) [of x] by (subst unecmify_loop.simps) (simp add: e)
        then show ?thesis using p0(1) e by (intro exI [of _ p0]) simp
      next
        case False
        from body y h False have ok: "\<not> 0x8000000000000000 \<le> num + 1"
          by (auto split: if_splits)
        from body y h False ok obtain st1 where
          cb: "chunk_body L type (st\<lparr>inp := rest\<rparr>) (num + 1) = Some (Inr st1)"
          and r: "f L st1 = Some (Inr st')"
          by (auto split: option.splits sum.splits)
        from chunk_body_local [OF cb] obtain p1 where p1: "rest = p1 @ inp st1"
          "\<And>x. chunk_body L type (st\<lparr>inp := p1 @ x\<rparr>) (num + 1) = Some (Inr (st1\<lparr>inp := x\<rparr>))"
          by auto
        from IH [OF r] obtain p2 where p2: "inp st1 = p2 @ inp st'"
          "\<And>x. unecmify_loop L (st1\<lparr>inp := p2 @ x\<rparr>) = Some (Inr (st'\<lparr>inp := x\<rparr>))"
          unfolding P_def by blast
        have a: "inp st = (p0 @ p1 @ p2) @ inp st'" using p0(1) p1(1) p2(1) by simp
        have b: "unecmify_loop L (st\<lparr>inp := (p0 @ p1 @ p2) @ x\<rparr>) = Some (Inr (st'\<lparr>inp := x\<rparr>))" for x
          using False ok p0(2) [of "p1 @ p2 @ x"] p1(2) [of "p2 @ x"] p2(2) [of x]
          by (subst unecmify_loop.simps) simp
        show ?thesis using a b by blast
      qed
    qed
  qed
  then show "unecmify_loop L st = Some (Inr st') \<Longrightarrow>
   \<exists>p. inp st = p @ inp st' \<and>
       (\<forall>x. unecmify_loop L (st\<lparr>inp := p @ x\<rparr>) = Some (Inr (st'\<lparr>inp := x\<rparr>)))"
    unfolding P_def by blast
qed

text \<open>The running checksum is the checksum of the output, at every point of the
  decode.\<close>

lemma length_memset: "off + n \<le> length buf \<Longrightarrow> length (memset buf off v n) = length buf"
  by (simp add: memset_def)

lemma fread_frame:
  assumes "fread st off n = Inr st'" "off + n \<le> length (sector st)"
  shows "length (sector st') = length (sector st)" "out st' = out st" "checkedc st' = checkedc st"
  using assms by (auto simp: fread_def split: if_splits)

lemma length_mirror_subheader: "length (mirror_subheader s) = length s"
  by (simp add: mirror_subheader_def Let_def)

lemma length_fold_update: "length (fold (\<lambda>i s. s[f i := v]) is s) = length s"
  by (induction "is" arbitrary: s) simp_all

lemma length_eccedc_generate: "length s = 2352 \<Longrightarrow> length (eccedc_generate L s t) = 2352"
  by (simp add: eccedc_generate_def Let_def length_edc_computeblock length_ecc_generate_False
      length_ecc_generate_True length_fold_update)

lemma sector_step_inv:
  assumes "sector_step L t st = Inr st'" "decode_inv L st"
  shows "decode_inv L st'"
proof -
  define B0 where "B0 = memset (memset (sector st) 0 0 2352) 1 0xFF 10"
  have l: "length (sector st) = 2352" and c: "checkedc st = accumulate (edc_lut L) 0 (out st)"
    using assms(2) by (simp_all add: decode_inv_def)
  have lB: "length B0 = 2352" by (simp add: B0_def length_memset l)
  have w: "decode_inv L (fwrite (s\<lparr>sector := sec, checkedc := edc_partial_computeblock L (checkedc s) src (of_nat n)\<rparr>)
                     (take n src))"
    if "decode_inv L s" "n \<le> length src" "n < 65536" "length sec = 2352" for s sec src n
    using that by (simp add: decode_inv_def fwrite_def edc_partial_accumulate accumulate_append)
  consider "t = 1" | "t = 2" | "t = 3" | "t \<noteq> 1" "t \<noteq> 2" "t \<noteq> 3" by blast
  then show ?thesis
  proof cases
    case 1
    from assms(1) 1 obtain s2 s3 where f1: "fread (st\<lparr>sector := B0[0xF := 1]\<rparr>) 0xC 3 = Inr s2"
      and f2: "fread s2 0x10 0x800 = Inr s3"
      and e: "st' = fwrite (s3\<lparr>sector := eccedc_generate L (sector s3) 1,
                checkedc := edc_partial_computeblock L (checkedc s3) (eccedc_generate L (sector s3) 1) (of_nat 2352)\<rparr>)
                 (take 2352 (eccedc_generate L (sector s3) 1))"
      by (auto simp: sector_step_def Let_def B0_def split: sum.splits)
    have i2: "decode_inv L s2" using fread_frame [OF f1] lB l c by (simp add: decode_inv_def)
    have i3: "decode_inv L s3" using fread_frame [OF f2] i2 by (simp add: decode_inv_def)
    have lg: "length (eccedc_generate L (sector s3) 1) = 2352"
      using i3 by (simp add: decode_inv_def length_eccedc_generate)
    show ?thesis unfolding e by (rule w [OF i3]) (simp_all add: lg)
  next
    case 2
    from assms(1) 2 obtain s2 where f1: "fread (st\<lparr>sector := B0[0xF := 2]\<rparr>) 0x14 0x804 = Inr s2"
      and e: "st' = fwrite (s2\<lparr>sector := eccedc_generate L (mirror_subheader (sector s2)) 2,
                checkedc := edc_partial_computeblock L (checkedc s2)
                   (drop 0x10 (eccedc_generate L (mirror_subheader (sector s2)) 2)) (of_nat 2336)\<rparr>)
                 (take 2336 (drop 0x10 (eccedc_generate L (mirror_subheader (sector s2)) 2)))"
      by (auto simp: sector_step_def Let_def B0_def split: sum.splits)
    have i2: "decode_inv L s2" using fread_frame [OF f1] lB l c by (simp add: decode_inv_def)
    have lg: "length (eccedc_generate L (mirror_subheader (sector s2)) 2) = 2352"
      using i2 by (simp add: decode_inv_def length_eccedc_generate length_mirror_subheader)
    show ?thesis unfolding e by (rule w [OF i2]) (simp_all add: lg)
  next
    case 3
    from assms(1) 3 obtain s2 where f1: "fread (st\<lparr>sector := B0[0xF := 2]\<rparr>) 0x14 0x918 = Inr s2"
      and e: "st' = fwrite (s2\<lparr>sector := eccedc_generate L (mirror_subheader (sector s2)) 3,
                checkedc := edc_partial_computeblock L (checkedc s2)
                   (drop 0x10 (eccedc_generate L (mirror_subheader (sector s2)) 3)) (of_nat 2336)\<rparr>)
                 (take 2336 (drop 0x10 (eccedc_generate L (mirror_subheader (sector s2)) 3)))"
      by (auto simp: sector_step_def Let_def B0_def split: sum.splits)
    have i2: "decode_inv L s2" using fread_frame [OF f1] lB l c by (simp add: decode_inv_def)
    have lg: "length (eccedc_generate L (mirror_subheader (sector s2)) 3) = 2352"
      using i2 by (simp add: decode_inv_def length_eccedc_generate length_mirror_subheader)
    show ?thesis unfolding e by (rule w [OF i2]) (simp_all add: lg)
  next
    case 4
    then have "st' = st\<lparr>sector := B0\<rparr>"
      using assms(1) by (simp add: sector_step_def Let_def B0_def)
    then show ?thesis using lB c by (simp add: decode_inv_def)
  qed
qed

lemma sector_loop_inv:
  "sector_loop L t st num = Inr st' \<Longrightarrow> decode_inv L st \<Longrightarrow> decode_inv L st'"
proof (induction L t st num arbitrary: st' rule: sector_loop.induct)
  case (1 L type st num)
  show ?case
  proof (cases "num = 0")
    case True
    then show ?thesis using "1.prems" by (simp add: sector_loop.simps)
  next
    case False
    from "1.prems"(1) False obtain st1 where s: "sector_step L type st = Inr st1"
      and r: "sector_loop L type st1 (num - 1) = Inr st'"
      by (subst (asm) sector_loop.simps) (auto split: sum.splits)
    show ?thesis
      using "1.IH" [OF False s r] sector_step_inv [OF s "1.prems"(2)] by simp
  qed
qed

lemma sint_small: "(num :: off_t) < 0x8000000000000000 \<Longrightarrow> sint num = int (unat num)"
proof -
  assume "num < 0x8000000000000000"
  then have "uint num < 2 ^ 63" by (simp add: word_less_def)
  then have "signed_take_bit 63 (uint num) = uint num"
    by (intro signed_take_bit_int_eq_self) (simp_all add: order_trans [of _ 0])
  then show ?thesis by (simp add: sint_uint)
qed

lemma piece_bounds:
  assumes "(num :: off_t) < 0x8000000000000000" "num \<noteq> 0"
  defines "b \<equiv> (if 2352 < sint num then 2352 else ucast num) :: ecc_uint16"
  shows "unat b \<le> 2352" "num - ucast b < 0x8000000000000000"
proof -
  have s: "sint num = int (unat num)" by (rule sint_small [OF assms(1)])
  show "unat b \<le> 2352"
  proof (cases "2352 < sint num")
    case True
    then show ?thesis by (simp add: b_def)
  next
    case False
    then have "int (unat num) \<le> 2352" using s by simp
    then have "unat num \<le> 2352" by linarith
    then have "unat (ucast num :: ecc_uint16) \<le> 2352"
      by (simp add: unsigned_ucast_eq take_bit_eq_mod)
    then show ?thesis using False by (simp add: b_def)
  qed
  show "num - ucast b < 0x8000000000000000"
  proof (cases "2352 < sint num")
    case True
    then have "2352 < int (unat num)" using s by simp
    then have "2352 < unat num" by linarith
    moreover have "unat num < 2 ^ 63" using assms(1) by (simp add: word_less_nat_alt)
    ultimately have "unat (num - 2352) = unat num - 2352"
      by (simp add: unat_sub word_le_nat_alt)
    then have "unat (num - 2352) < 2 ^ 63" using \<open>unat num < 2 ^ 63\<close> by simp
    then show ?thesis using True by (simp add: b_def word_less_nat_alt)
  next
    case False
    then have "int (unat num) \<le> 2352" using s by simp
    then have u: "unat num \<le> 2352" by linarith
    have "(ucast (ucast num :: ecc_uint16) :: off_t) = num"
    proof -
      have "unat (ucast (ucast num :: ecc_uint16) :: off_t) = unat num"
        using u by (simp add: unsigned_ucast_eq take_bit_eq_mod unat_mod)
      then show ?thesis by (simp only: word_unat_eq_iff)
    qed
    then show ?thesis using False by (simp add: b_def)
  qed
qed



lemma literal_loop_inv:
  assumes "literal_loop L st num = Some (Inr st')" "num < 0x8000000000000000" "decode_inv L st"
  shows "decode_inv L st'"
proof -
  define P where "P L st num y \<longleftrightarrow>
      (num < 0x8000000000000000 \<longrightarrow> decode_inv L st \<longrightarrow> (\<forall>st'. y = Inr st' \<longrightarrow> decode_inv L st'))"
    for L st and num :: off_t and y :: "error + dec_state"
  have "P L st num y" if "literal_loop L st num = Some y" for y
  proof (rule literal_loop.raw_induct [where P = P, OF _ that], goal_cases)
    case (1 f L st num y)
    note IH = 1(1) and body = 1(2)
    show ?case
    proof (cases "num = 0")
      case True
      then have "y = Inr st" using body by simp
      then show ?thesis unfolding P_def by simp
    next
      case False
      define b :: ecc_uint16 where "b = (if 2352 < sint num then 2352 else ucast num)"
      show ?thesis
        unfolding P_def
      proof (intro allI impI)
        fix st' assume n: "num < 0x8000000000000000" and i: "decode_inv L st" and y: "y = Inr st'"
        have bb: "unat b \<le> 2352" and nn: "num - ucast b < 0x8000000000000000"
          using piece_bounds [OF n False] by (simp_all add: b_def)
        from body False y obtain st1 where f1: "fread st 0 (unat b) = Inr st1"
          and r: "f L (fwrite (st1\<lparr>checkedc := edc_partial_computeblock L (checkedc st1) (sector st1) b\<rparr>)
                     (take (unat b) (sector st1))) (num - ucast b) = Some (Inr st')"
          by (auto simp: b_def Let_def split: sum.splits)
        have l: "length (sector st) = 2352" using i by (simp add: decode_inv_def)
        have i1: "decode_inv L st1" using fread_frame [OF f1] i bb by (simp add: decode_inv_def)
        have "unat b < 65536" using unsigned_less [of b] by simp
        then have ea: "edc_partial_computeblock L (checkedc st1) (sector st1) b =
                   accumulate (edc_lut L) (checkedc st1) (take (unat b) (sector st1))"
          using edc_partial_accumulate [of "unat b" "sector st1" L "checkedc st1"] i1 bb
          by (simp add: decode_inv_def)
        have "decode_inv L (fwrite (st1\<lparr>checkedc := edc_partial_computeblock L (checkedc st1) (sector st1) b\<rparr>)
                     (take (unat b) (sector st1)))"
          using i1 unfolding ea by (simp add: decode_inv_def fwrite_def accumulate_append)
        with IH [OF r] nn show "decode_inv L st'" unfolding P_def by blast
      qed
    qed
  qed
  from this [OF assms(1)] assms(2,3) show ?thesis unfolding P_def by blast
qed

lemma chunk_body_inv:
  assumes "chunk_body L t st num = Some (Inr st')" "num < 0x8000000000000000" "decode_inv L st"
  shows "decode_inv L st'"
  using assms literal_loop_inv [of L st num st'] sector_loop_inv [of L t st num st']
  by (auto simp: chunk_body_def split: if_splits)

lemma unecmify_loop_inv:
  assumes "unecmify_loop L st = Some (Inr st')" "decode_inv L st"
  shows "decode_inv L st'"
proof -
  define P where "P L st y \<longleftrightarrow> (decode_inv L st \<longrightarrow> (\<forall>st'. y = Inr st' \<longrightarrow> decode_inv L st'))"
    for L st and y :: "error + dec_state"
  have "P L st y" if "unecmify_loop L st = Some y" for y
  proof (rule unecmify_loop.raw_induct [where P = P, OF _ that], goal_cases)
    case (1 f L st y)
    note IH = 1(1) and body = 1(2)
    show ?case
      unfolding P_def
    proof (intro allI impI)
      fix st' assume i: "decode_inv L st" and y: "y = Inr st'"
      from body y obtain type num rest where h: "chunk_header (inp st) = Inr (type, num, rest)"
        by (auto split: sum.splits)
      have ir: "decode_inv L (st\<lparr>inp := rest\<rparr>)" using i by (simp add: decode_inv_def)
      show "decode_inv L st'"
      proof (cases "num = 0xFFFFFFFF")
        case True
        then have "st' = st\<lparr>inp := rest\<rparr>" using body y h by simp
        then show ?thesis using ir by simp
      next
        case False
        from body y h False have ok: "\<not> 0x8000000000000000 \<le> num + 1"
          by (auto split: if_splits)
        from body y h False ok obtain st1 where
          cb: "chunk_body L type (st\<lparr>inp := rest\<rparr>) (num + 1) = Some (Inr st1)"
          and r: "f L st1 = Some (Inr st')"
          by (auto split: option.splits sum.splits)
        have "num + 1 < 0x8000000000000000" using ok by simp
        from chunk_body_inv [OF cb this ir] have "decode_inv L st1" .
        with IH [OF r] show ?thesis unfolding P_def by blast
      qed
    qed
  qed
  from this [OF assms(1)] assms(2) show ?thesis unfolding P_def by blast
qed

lemma decode_inv_start: "decode_inv L \<lparr>inp = body, out = [], checkedc = 0, sector = replicate 2352 0\<rparr>"
  by (simp add: decode_inv_def)

lemma magic_ok_eq: "(magic_ok input = Some body) = (input = [0x45, 0x43, 0x4D, 0x00] @ body)"
  by (auto simp: magic_ok_def split: list.splits)

lemma unecmify_after_sentinel:
  assumes "magic_ok input = Some body"
    "unecmify_loop L \<lparr>inp = body, out = [], checkedc = 0, sector = replicate 2352 0\<rparr> = Some (Inr st)"
  shows "unecmify L input =
     Some (if length (inp st) < 4 then Inl UnexpectedEndOfStream
           else if take 4 (inp st) = finalize (accumulate (edc_lut L) 0 (out st))
           then Inr (st\<lparr>sector := take 4 (inp st) @ drop 4 (sector st), inp := drop 4 (inp st)\<rparr>)
           else Inl ChecksumMismatch)"
proof -
  have "decode_inv L st" by (rule unecmify_loop_inv [OF assms(2) decode_inv_start])
  then have c: "checkedc st = accumulate (edc_lut L) 0 (out st)" by (simp add: decode_inv_def)
  show ?thesis
    using assms by (simp add: unecmify_def unecmify_trailer_eq c)
qed

lemma unecmify_success:
  assumes "unecmify L input = Some (Inr st1)"
  obtains body st where "magic_ok input = Some body"
    "unecmify_loop L \<lparr>inp = body, out = [], checkedc = 0, sector = replicate 2352 0\<rparr> = Some (Inr st)"
    "4 \<le> length (inp st)" "take 4 (inp st) = finalize (accumulate (edc_lut L) 0 (out st))"
    "inp st1 = drop 4 (inp st)"
proof -
  from assms obtain body st where m: "magic_ok input = Some body"
    and l: "unecmify_loop L \<lparr>inp = body, out = [], checkedc = 0, sector = replicate 2352 0\<rparr> = Some (Inr st)"
    by (auto simp: unecmify_def split: option.splits sum.splits)
  from assms unecmify_after_sentinel [OF m l]
  have "4 \<le> length (inp st) \<and> take 4 (inp st) = finalize (accumulate (edc_lut L) 0 (out st)) \<and>
        inp st1 = drop 4 (inp st)"
    by (auto split: if_splits)
  with m l that show ?thesis by blast
qed

lemma trailer_flip:
  assumes "unecmify L (pre @ t @ r) = Some (Inr st1)" "inp st1 = r" "length t = 4"
    "length t' = 4" "t' \<noteq> t"
  shows "unecmify L (pre @ t' @ r) = Some (Inl ChecksumMismatch)"
proof -
  from unecmify_success [OF assms(1)] obtain body st where m: "magic_ok (pre @ t @ r) = Some body"
    and l: "unecmify_loop L \<lparr>inp = body, out = [], checkedc = 0, sector = replicate 2352 0\<rparr> = Some (Inr st)"
    and g: "4 \<le> length (inp st)"
    and e: "take 4 (inp st) = finalize (accumulate (edc_lut L) 0 (out st))"
    and d: "inp st1 = drop 4 (inp st)" by blast
  from unecmify_loop_local [OF l] obtain p where p: "body = p @ inp st"
    "\<And>x. unecmify_loop L \<lparr>inp = p @ x, out = [], checkedc = 0, sector = replicate 2352 0\<rparr> =
          Some (Inr (st\<lparr>inp := x\<rparr>))"
    by auto
  have ist: "inp st = take 4 (inp st) @ r" using d assms(2) by (metis append_take_drop_id)
  define M where "M = [0x45, 0x43, 0x4D, 0x00] @ p"
  have "pre @ t @ r = (M @ take 4 (inp st)) @ r"
    using m p(1) ist by (simp add: magic_ok_eq M_def)
  then have q: "pre @ t = M @ take 4 (inp st)" by simp
  have lt: "length t = length (take 4 (inp st))" using assms(3) g by simp
  have "pre = M \<and> t = take 4 (inp st)"
    using append_eq_append_conv [of pre M t "take 4 (inp st)"] q lt by blast
  then have pt: "pre = [0x45, 0x43, 0x4D, 0x00] @ p" "t = take 4 (inp st)"
    by (simp_all add: M_def)
  have m': "magic_ok (pre @ t' @ r) = Some (p @ t' @ r)" by (simp add: magic_ok_eq pt(1))
  have l': "unecmify_loop L \<lparr>inp = p @ t' @ r, out = [], checkedc = 0, sector = replicate 2352 0\<rparr> =
          Some (Inr (st\<lparr>inp := t' @ r\<rparr>))" by (rule p(2))
  show ?thesis
    using unecmify_after_sentinel [OF m' l'] assms(4,5) pt(2) e by simp
qed

text \<open>A stream with one literal byte 07: after the magic, the header 00, the byte, and the
  sentinel, whatever follows.\<close>

lemma loop_one_literal:
  "unecmify_loop L \<lparr>inp = [0x00, 0x07, 0xFC, 0xFF, 0xFF, 0xFF, 0x3F] @ x, out = [], checkedc = 0,
       sector = replicate 2352 0\<rparr> =
     Some (Inr \<lparr>inp = x, out = [0x07], checkedc = accumulate (edc_lut L) 0 [0x07],
                sector = 0x07 # replicate 2351 0\<rparr>)"
  by (simp add: unecmify_loop.simps chunk_header_def read_count.simps chunk_body_def
        literal_loop.simps fread_def fwrite_def edc_partial_computeblock.simps edc_byte_def
        word_le_nat_alt)

lemma magic_one_literal:
  "magic_ok ([0x45, 0x43, 0x4D, 0x00, 0x00, 0x07, 0xFC, 0xFF, 0xFF, 0xFF, 0x3F] @ x) =
     Some ([0x00, 0x07, 0xFC, 0xFF, 0xFF, 0xFF, 0x3F] @ x)"
  by (simp add: magic_ok_def)

lemma decode_one_literal:
  "unecmify L ([0x45, 0x43, 0x4D, 0x00, 0x00, 0x07, 0xFC, 0xFF, 0xFF, 0xFF, 0x3F] @
                finalize (accumulate (edc_lut L) 0 [0x07]) @ r) =
     Some (Inr \<lparr>inp = r, out = [0x07], checkedc = accumulate (edc_lut L) 0 [0x07],
                sector = finalize (accumulate (edc_lut L) 0 [0x07]) @ replicate 2348 0\<rparr>)"
proof -
  have l: "length (finalize (accumulate (edc_lut L) 0 [0x07])) = 4" by (simp add: finalize_def)
  show ?thesis
    using unecmify_after_sentinel [OF magic_one_literal loop_one_literal,
        of L "finalize (accumulate (edc_lut L) 0 [0x07]) @ r"] l
    by simp
qed

text \<open>Claim C5. When the chunk loop has ended at the sentinel, in a state \<open>st\<close> whose
  unread input is what follows the sentinel, \<^verbatim>\<open>unecmify\<close> reads 4 bytes: with fewer than 4
  left it fails with \<open>UnexpectedEndOfStream\<close>; otherwise it compares them with the four
  little-endian bytes of the checksum of the whole output, accumulated from 0, succeeds
  having consumed exactly these 4 bytes when they agree, and fails with
  \<open>ChecksumMismatch\<close> when they differ. Hence, if a stream decodes with the trailer \<open>t\<close>
  (the 4 bytes before the unread rest \<open>r\<close>), the stream with any other 4 bytes \<open>t'\<close> in
  its place, in particular \<open>t\<close> with one byte flipped, fails with \<open>ChecksumMismatch\<close>.\<close>

theorem C5_trailer:
  "(magic_ok input = Some body \<and>
    unecmify_loop L \<lparr>inp = body, out = [], checkedc = 0, sector = replicate 2352 0\<rparr> = Some (Inr st) \<longrightarrow>
      unecmify L input =
        Some (if length (inp st) < 4 then Inl UnexpectedEndOfStream
              else if take 4 (inp st) = finalize (accumulate (edc_lut L) 0 (out st))
              then Inr (st\<lparr>sector := take 4 (inp st) @ drop 4 (sector st), inp := drop 4 (inp st)\<rparr>)
              else Inl ChecksumMismatch)) \<and>
   (unecmify L (pre @ t @ r) = Some (Inr st1) \<and> inp st1 = r \<and> length t = 4 \<and>
    length t' = 4 \<and> t' \<noteq> t \<longrightarrow>
      unecmify L (pre @ t' @ r) = Some (Inl ChecksumMismatch))"
proof (intro conjI impI)
  assume "magic_ok input = Some body \<and>
    unecmify_loop L \<lparr>inp = body, out = [], checkedc = 0, sector = replicate 2352 0\<rparr> = Some (Inr st)"
  then have h: "magic_ok input = Some body"
    "unecmify_loop L \<lparr>inp = body, out = [], checkedc = 0, sector = replicate 2352 0\<rparr> = Some (Inr st)"
    by simp_all
  show "unecmify L input =
        Some (if length (inp st) < 4 then Inl UnexpectedEndOfStream
              else if take 4 (inp st) = finalize (accumulate (edc_lut L) 0 (out st))
              then Inr (st\<lparr>sector := take 4 (inp st) @ drop 4 (sector st), inp := drop 4 (inp st)\<rparr>)
              else Inl ChecksumMismatch)"
    by (rule unecmify_after_sentinel [OF h])
next
  assume "unecmify L (pre @ t @ r) = Some (Inr st1) \<and> inp st1 = r \<and> length t = 4 \<and>
    length t' = 4 \<and> t' \<noteq> t"
  then have h: "unecmify L (pre @ t @ r) = Some (Inr st1)" "inp st1 = r" "length t = 4"
    "length t' = 4" "t' \<noteq> t"
    by simp_all
  show "unecmify L (pre @ t' @ r) = Some (Inl ChecksumMismatch)"
    by (rule trailer_flip [OF h])
qed

text \<open>Claim C5 with the tables of \<^verbatim>\<open>eccedc_init\<close>, on the stream that holds the one
  literal byte 07: followed by the two bytes 01 02 only (end of input in the trailer); by
  the four bytes of the checksum of the output (success, nothing left unread); and by
  these four bytes with the first one increased by 1 (mismatch), which is also the flip
  of one trailer byte of the valid stream.\<close>

theorem C5_trailer_witness:
  "(magic_ok ([0x45, 0x43, 0x4D, 0x00, 0x00, 0x07, 0xFC, 0xFF, 0xFF, 0xFF, 0x3F] @ [0x01, 0x02]) =
      Some ([0x00, 0x07, 0xFC, 0xFF, 0xFF, 0xFF, 0x3F] @ [0x01, 0x02]) \<and>
    unecmify_loop eccedc_init
      \<lparr>inp = [0x00, 0x07, 0xFC, 0xFF, 0xFF, 0xFF, 0x3F] @ [0x01, 0x02], out = [], checkedc = 0,
        sector = replicate 2352 0\<rparr> =
      Some (Inr \<lparr>inp = [0x01, 0x02], out = [0x07],
                 checkedc = accumulate (edc_lut eccedc_init) 0 [0x07],
                 sector = 0x07 # replicate 2351 0\<rparr>) \<and>
    unecmify eccedc_init
      ([0x45, 0x43, 0x4D, 0x00, 0x00, 0x07, 0xFC, 0xFF, 0xFF, 0xFF, 0x3F] @ [0x01, 0x02]) =
      Some (Inl UnexpectedEndOfStream)) \<and>
   (unecmify eccedc_init
      ([0x45, 0x43, 0x4D, 0x00, 0x00, 0x07, 0xFC, 0xFF, 0xFF, 0xFF, 0x3F] @
       finalize (accumulate (edc_lut eccedc_init) 0 [0x07]) @ []) =
      Some (Inr \<lparr>inp = [], out = [0x07], checkedc = accumulate (edc_lut eccedc_init) 0 [0x07],
                 sector = finalize (accumulate (edc_lut eccedc_init) 0 [0x07]) @ replicate 2348 0\<rparr>) \<and>
    length (finalize (accumulate (edc_lut eccedc_init) 0 [0x07])) = 4 \<and>
    length ((hd (finalize (accumulate (edc_lut eccedc_init) 0 [0x07])) + 1) #
            tl (finalize (accumulate (edc_lut eccedc_init) 0 [0x07]))) = 4 \<and>
    (hd (finalize (accumulate (edc_lut eccedc_init) 0 [0x07])) + 1) #
       tl (finalize (accumulate (edc_lut eccedc_init) 0 [0x07])) \<noteq>
     finalize (accumulate (edc_lut eccedc_init) 0 [0x07]) \<and>
    unecmify eccedc_init
      ([0x45, 0x43, 0x4D, 0x00, 0x00, 0x07, 0xFC, 0xFF, 0xFF, 0xFF, 0x3F] @
       ((hd (finalize (accumulate (edc_lut eccedc_init) 0 [0x07])) + 1) #
        tl (finalize (accumulate (edc_lut eccedc_init) 0 [0x07]))) @ []) =
      Some (Inl ChecksumMismatch))"
proof -
  let ?L = eccedc_init
  let ?pre = "[0x45, 0x43, 0x4D, 0x00, 0x00, 0x07, 0xFC, 0xFF, 0xFF, 0xFF, 0x3F] :: ecc_uint8 list"
  let ?t = "finalize (accumulate (edc_lut ?L) 0 [0x07])"
  let ?t' = "(hd ?t + 1) # tl ?t"
  let ?st = "\<lparr>inp = [0x01, 0x02], out = [0x07], checkedc = accumulate (edc_lut ?L) 0 [0x07],
              sector = 0x07 # replicate 2351 0\<rparr>"
  let ?st1 = "\<lparr>inp = [], out = [0x07], checkedc = accumulate (edc_lut ?L) 0 [0x07],
               sector = ?t @ replicate 2348 0\<rparr>"
  have m: "magic_ok (?pre @ [0x01, 0x02]) = Some ([0x00, 0x07, 0xFC, 0xFF, 0xFF, 0xFF, 0x3F] @ [0x01, 0x02])"
    by (rule magic_one_literal)
  have l: "unecmify_loop ?L
      \<lparr>inp = [0x00, 0x07, 0xFC, 0xFF, 0xFF, 0xFF, 0x3F] @ [0x01, 0x02], out = [], checkedc = 0,
        sector = replicate 2352 0\<rparr> = Some (Inr ?st)"
    by (rule loop_one_literal)
  have d: "unecmify ?L (?pre @ ?t @ []) = Some (Inr ?st1)"
    by (rule decode_one_literal)
  have i: "inp ?st1 = []" by simp
  have lt: "length ?t = 4" by (simp add: finalize_def)
  have lt': "length ?t' = 4" by (simp add: finalize_def)
  have ne: "?t' \<noteq> ?t" by (simp add: finalize_def)
  note T = C5_trailer [where L = ?L and input = "?pre @ [0x01, 0x02]"
      and body = "[0x00, 0x07, 0xFC, 0xFF, 0xFF, 0xFF, 0x3F] @ [0x01, 0x02]" and st = ?st
      and pre = ?pre and t = ?t and t' = ?t' and r = "[]" and ?st1.0 = ?st1]
  have a: "unecmify ?L (?pre @ [0x01, 0x02]) = Some (Inl UnexpectedEndOfStream)"
    using T [THEN conjunct1, THEN mp, OF conjI [OF m l]] by simp
  have b: "unecmify ?L (?pre @ ?t' @ []) = Some (Inl ChecksumMismatch)"
    by (rule T [THEN conjunct2, THEN mp, OF conjI [OF d conjI [OF i conjI [OF lt conjI [OF lt' ne]]]]])
  show ?thesis
    by (intro conjI m l a d lt lt' ne b)
qed

end
